theory Spec2Isabelle
  imports Main "HOL-Library.Word"
begin

unbundle bit_operations_syntax

section \<open>Machine types\<close>

text \<open>
  \<open>uint_t\<close> is the library's name for \<open>unsigned int\<close>; its typedef lives in a header
  outside \<open>PrimeNumberFinder.cpp\<close> and is taken here as a 32-bit word. The fixed-width
  types come from \<open>stdint.h\<close>.
\<close>

type_synonym uint_t = "32 word"
type_synonym uint8_t = "8 word"
type_synonym uint32_t = "32 word"
type_synonym uint64_t = "64 word"

text \<open>
  A read through a pointer or a vector index that leaves the object is undefined
  behaviour in C++; the model makes it the value \<open>None\<close>.
\<close>

definition at :: "'a list \<Rightarrow> nat \<Rightarrow> 'a option" where
  "at xs i = (if i < length xs then Some (xs ! i) else None)"

section \<open>The run configuration: \<open>PrimeSieve\<close>\<close>

text \<open>
  Modelled from the spec: the class \<open>PrimeSieve\<close> (\<open>PrimeSieve.h\<close>) is not among the
  sources. The spec describes it as the orchestrator that owns the set of requested
  flags (which count kinds and which generation mode are enabled, indexed 0 to 6 by
  tuplet kind), the range bounds, the per-kind 64-bit accumulators and the callback
  handles. The flag names are the ones \<open>PrimeNumberFinder.cpp\<close> uses; a flag range
  \<open>isFlag(first, last)\<close> holds when some flag between the two, in the order of
  declaration below, is set.
\<close>

datatype flag =
    COUNT_PRIMES | COUNT_TWINS | COUNT_TRIPLETS | COUNT_QUADRUPLETS
  | COUNT_QUINTUPLETS | COUNT_SEXTUPLETS | COUNT_SEPTUPLETS
  | PRINT_PRIMES | PRINT_TWINS | PRINT_TRIPLETS | PRINT_QUADRUPLETS
  | PRINT_QUINTUPLETS | PRINT_SEXTUPLETS | PRINT_SEPTUPLETS
  | CALCULATE_STATUS | PRINT_STATUS
  | CALLBACK32_PRIMES | CALLBACK64_PRIMES
  | CALLBACK32_OOP_PRIMES | CALLBACK64_OOP_PRIMES

definition all_flags :: "flag list" where
  "all_flags =
    [COUNT_PRIMES, COUNT_TWINS, COUNT_TRIPLETS, COUNT_QUADRUPLETS,
     COUNT_QUINTUPLETS, COUNT_SEXTUPLETS, COUNT_SEPTUPLETS,
     PRINT_PRIMES, PRINT_TWINS, PRINT_TRIPLETS, PRINT_QUADRUPLETS,
     PRINT_QUINTUPLETS, PRINT_SEXTUPLETS, PRINT_SEPTUPLETS,
     CALCULATE_STATUS, PRINT_STATUS,
     CALLBACK32_PRIMES, CALLBACK64_PRIMES,
     CALLBACK32_OOP_PRIMES, CALLBACK64_OOP_PRIMES]"

record PrimeSieve =
  ps_flags :: "flag set"
  ps_start :: uint64_t
  ps_stop :: uint64_t
  ps_preSieve :: uint_t
  ps_sieveSize :: uint_t
  ps_counts :: "uint64_t list"
  ps_obj :: nat

definition getStart :: "PrimeSieve \<Rightarrow> uint64_t" where
  "getStart cfg = ps_start cfg"

definition getStop :: "PrimeSieve \<Rightarrow> uint64_t" where
  "getStop cfg = ps_stop cfg"

definition getPreSieve :: "PrimeSieve \<Rightarrow> uint_t" where
  "getPreSieve cfg = ps_preSieve cfg"

definition getSieveSize :: "PrimeSieve \<Rightarrow> uint_t" where
  "getSieveSize cfg = ps_sieveSize cfg"

definition isFlag :: "PrimeSieve \<Rightarrow> flag \<Rightarrow> bool" where
  "isFlag cfg f = (f \<in> ps_flags cfg)"

definition flags_between :: "flag \<Rightarrow> flag \<Rightarrow> flag list" where
  "flags_between lo hi =
     takeWhile (\<lambda>f. f \<noteq> hi) (dropWhile (\<lambda>f. f \<noteq> lo) all_flags) @ [hi]"

definition isFlag2 :: "PrimeSieve \<Rightarrow> flag \<Rightarrow> flag \<Rightarrow> bool" where
  "isFlag2 cfg lo hi = (\<exists>f \<in> set (flags_between lo hi). f \<in> ps_flags cfg)"

definition isCount :: "PrimeSieve \<Rightarrow> nat \<Rightarrow> bool" where
  "isCount cfg i = (i < 7 \<and> isFlag cfg (all_flags ! i))"

definition isPrint :: "PrimeSieve \<Rightarrow> nat \<Rightarrow> bool" where
  "isPrint cfg i = (i < 7 \<and> isFlag cfg (all_flags ! (7 + i)))"

definition isCount0 :: "PrimeSieve \<Rightarrow> bool" where
  "isCount0 cfg = isFlag2 cfg COUNT_PRIMES COUNT_SEPTUPLETS"

definition isGenerate :: "PrimeSieve \<Rightarrow> bool" where
  "isGenerate cfg =
     (isFlag2 cfg PRINT_PRIMES PRINT_SEPTUPLETS \<or>
      isFlag2 cfg CALLBACK32_PRIMES CALLBACK64_OOP_PRIMES)"

definition isStatus :: "PrimeSieve \<Rightarrow> bool" where
  "isStatus cfg = isFlag2 cfg CALCULATE_STATUS PRINT_STATUS"

section \<open>The segment processor: \<open>PrimeNumberFinder\<close>\<close>

text \<open>
  Modelled from the spec: the sentinel \<open>END\<close> is declared in \<open>PrimeNumberFinder.h\<close>,
  which is not among the sources. The spec has it chosen at least 256, unreachable as
  a real byte; the model takes the least such value.
\<close>

definition END :: uint_t where
  "END = 0xff + 1"

text \<open>
  The table \<open>kTupletBitmasks_[7][5]\<close> as the initialiser writes it; C++ fills the
  entries an initialiser leaves out with zero. Names that end in an underscore are
  reserved in Isabelle, so the members \<open>kTupletBitmasks_\<close>, \<open>ps_\<close>, \<open>kCounts_\<close> and
  \<open>counts_\<close> are written without it.
\<close>

definition kTupletBitmasks :: "uint_t list list" where
  "kTupletBitmasks =
    [[END, 0, 0, 0, 0],
     [0x06, 0x18, 0xc0, END, 0],
     [0x07, 0x0e, 0x1c, 0x38, END],
     [0x1e, END, 0, 0, 0],
     [0x1f, 0x3e, END, 0, 0],
     [0x3f, END, 0, 0, 0],
     [0xfe, END, 0, 0, 0]]"

text \<open>
  The object: the arguments handed to the base class \<open>SieveOfEratosthenes\<close>, the
  reference \<open>ps_\<close> and the seven lookup vectors \<open>kCounts_\<close>.
\<close>

record PrimeNumberFinder =
  soe_start :: uint64_t
  soe_stop :: uint64_t
  soe_preSieve :: uint_t
  soe_sieveSize :: uint_t
  ps :: PrimeSieve
  kCounts :: "uint_t list list"

subsection \<open>\<open>initCounts\<close>\<close>

text \<open>
  The innermost loop of \<open>initCounts\<close>: \<open>for (b = kTupletBitmasks_[i]; *b <= j; b++)\<close>.
  The pointer walks the row; walking off the row is a read outside it.
\<close>

fun bitmask_scan :: "uint_t list \<Rightarrow> uint_t \<Rightarrow> uint_t \<Rightarrow> uint_t option" where
  "bitmask_scan [] j bitmaskCount = None"
| "bitmask_scan (b # bs) j bitmaskCount =
     (if b \<le> j
      then bitmask_scan bs j (if j AND b = b then bitmaskCount + 1 else bitmaskCount)
      else Some bitmaskCount)"

text \<open>The loop over \<open>j\<close>, storing one entry per byte value.\<close>

fun initCounts_row :: "uint_t list \<Rightarrow> nat list \<Rightarrow> uint_t list \<Rightarrow> uint_t list option" where
  "initCounts_row masks [] tbl = Some tbl"
| "initCounts_row masks (j # js) tbl =
     (case bitmask_scan masks (of_nat j) 0 of
        None \<Rightarrow> None
      | Some bitmaskCount \<Rightarrow> initCounts_row masks js (tbl[j := bitmaskCount]))"

text \<open>\<open>std::vector::resize\<close>: cut, or fill up with zeros.\<close>

definition resize :: "uint_t list \<Rightarrow> nat \<Rightarrow> uint_t list" where
  "resize v n = take n v @ replicate (n - length v) 0"

text \<open>The loop over the kinds \<open>i\<close>.\<close>

fun initCounts_loop :: "nat list \<Rightarrow> PrimeNumberFinder \<Rightarrow> PrimeNumberFinder option" where
  "initCounts_loop [] st = Some st"
| "initCounts_loop (i # is) st =
     (if isCount (ps st) i
      then (case at (kCounts st) i of
              None \<Rightarrow> None
            | Some v \<Rightarrow>
               (case at kTupletBitmasks i of
                  None \<Rightarrow> None
                | Some masks \<Rightarrow>
                   (case initCounts_row masks [0..<length (resize v 256)] (resize v 256) of
                      None \<Rightarrow> None
                    | Some tbl \<Rightarrow>
                        initCounts_loop is (st\<lparr>kCounts := (kCounts st)[i := tbl]\<rparr>))))
      else initCounts_loop is st)"

definition initCounts :: "PrimeNumberFinder \<Rightarrow> PrimeNumberFinder option" where
  "initCounts st = initCounts_loop [1..<7] st"

subsection \<open>The constructor\<close>

definition PrimeNumberFinder_ctor :: "PrimeSieve \<Rightarrow> PrimeNumberFinder option" where
  "PrimeNumberFinder_ctor cfg =
     (let st = \<lparr> soe_start = max 7 (getStart cfg),
                 soe_stop = getStop cfg,
                 soe_preSieve = getPreSieve cfg,
                 soe_sieveSize = getSieveSize cfg,
                 ps = cfg,
                 kCounts = replicate 7 [] \<rparr>
      in if isFlag2 cfg COUNT_TWINS COUNT_SEPTUPLETS then initCounts st else Some st)"

section \<open>The lookup tables, as the spec describes them\<close>

text \<open>
  The patterns of a kind are the entries of its row before the sentinel. The
  brute-force count of the spec: how many of them are contained in the byte value.
\<close>

definition patterns :: "nat \<Rightarrow> uint_t list" where
  "patterns k = takeWhile (\<lambda>p. p \<noteq> END) (kTupletBitmasks ! k)"

definition submask_count :: "nat \<Rightarrow> uint_t \<Rightarrow> nat" where
  "submask_count k j = length (filter (\<lambda>p. j AND p = p) (patterns k))"

definition table_of :: "nat \<Rightarrow> uint_t list" where
  "table_of k = map (\<lambda>j. of_nat (submask_count k (of_nat j))) [0..<256]"

text \<open>The positions of the set bits of a word, in ascending order.\<close>

definition set_bits :: "'a::len word \<Rightarrow> nat list" where
  "set_bits v = filter (bit v) [0..<LENGTH('a)]"

section \<open>Counting\<close>

subsection \<open>The population counts\<close>

text \<open>
  Modelled from the spec: \<open>popcount_lauradoux\<close> and \<open>popcount_kernighan\<close> live in
  \<open>popcount.h\<close>, which is not among the sources. The spec treats the population
  count as a black box with the contract that it returns the number of set bits of
  what it is given: 64-bit words for the aligned part, bytes for the remainder. The
  byte-wise count is written as the loop its name stands for, which clears the lowest
  set bit until none is left.
\<close>

definition popcount64 :: "uint64_t \<Rightarrow> nat" where
  "popcount64 w = length (filter (bit w) [0..<64])"

definition popcount_lauradoux :: "uint64_t list \<Rightarrow> uint_t" where
  "popcount_lauradoux data = of_nat (sum_list (map popcount64 data))"

function kernighan_loop :: "uint_t \<Rightarrow> uint_t \<Rightarrow> uint_t" where
  "kernighan_loop v bitCount =
     (if v = 0 then bitCount else kernighan_loop (v AND (v - 1)) (bitCount + 1))"
  by pat_completeness auto
termination
proof (relation "measure (\<lambda>(v, bitCount). unat v)")
  show "wf (measure (\<lambda>(v, bitCount). unat v))" by simp
next
  fix v bitCount :: uint_t
  assume nz: "v \<noteq> 0"
  then have "unat (v - 1) = unat v - 1" by (rule unat_minus_one)
  moreover have "0 < unat v" using nz by (simp add: unat_gt_0)
  moreover have "unat (v AND (v - 1)) \<le> unat (v - 1)"
    using word_and_le1 [of v "v - 1"] by (simp only: word_le_nat_alt)
  ultimately have "unat (v AND (v - 1)) < unat v" by linarith
  then show "((v AND (v - 1), bitCount + 1), (v, bitCount)) \<in> measure (\<lambda>(v, bitCount). unat v)"
    by simp
qed

declare kernighan_loop.simps [simp del]

fun kernighan_bytes :: "uint8_t list \<Rightarrow> uint_t \<Rightarrow> uint_t" where
  "kernighan_bytes [] bitCount = bitCount"
| "kernighan_bytes (b # data) bitCount =
     kernighan_bytes data (kernighan_loop (ucast b) bitCount)"

definition popcount_kernighan :: "uint8_t list \<Rightarrow> uint_t" where
  "popcount_kernighan data = kernighan_bytes data 0"

subsection \<open>Reading the segment\<close>

text \<open>
  \<open>reinterpret_cast<const uint64_t*>(sieve)\<close>: eight bytes make one word, the first
  byte the least significant one (the byte order does not change the number of set
  bits). Reading \<open>n\<close> words or bytes past the end of the segment is a read outside it.
\<close>

definition load64 :: "uint8_t list \<Rightarrow> uint64_t" where
  "load64 bs = foldr (\<lambda>b acc. ucast b OR push_bit 8 acc) bs 0"

definition sieve64 :: "uint8_t list \<Rightarrow> nat \<Rightarrow> uint64_t list option" where
  "sieve64 sieve size64 =
     (if 8 * size64 \<le> length sieve
      then Some (map (\<lambda>i. load64 (take 8 (drop (8 * i) sieve))) [0..<size64])
      else None)"

definition bytes_from :: "uint8_t list \<Rightarrow> nat \<Rightarrow> nat \<Rightarrow> uint8_t list option" where
  "bytes_from sieve off n =
     (if off + n \<le> length sieve then Some (take n (drop off sieve)) else None)"

subsection \<open>\<open>count\<close>\<close>

text \<open>The prime count of one segment, lines 113 to 119.\<close>

definition primeCount_of :: "uint8_t list \<Rightarrow> uint_t \<Rightarrow> uint_t option" where
  "primeCount_of sieve sieveSize =
     (let size64 = sieveSize div 8;
          bytesLeft = sieveSize mod 8
      in case sieve64 sieve (unat size64) of
           None \<Rightarrow> None
         | Some data \<Rightarrow>
            (let primeCount = popcount_lauradoux data
             in if bytesLeft > 0
                then (case bytes_from sieve (unat (sieveSize - bytesLeft)) (unat bytesLeft) of
                        None \<Rightarrow> None
                      | Some rest \<Rightarrow> Some (primeCount + popcount_kernighan rest))
                else Some primeCount))"

text \<open>\<open>ps_.counts_[i] += d\<close>: the 32-bit delta is widened to the 64-bit accumulator.\<close>

definition add_count :: "PrimeSieve \<Rightarrow> nat \<Rightarrow> uint_t \<Rightarrow> PrimeSieve option" where
  "add_count cfg i d =
     (case at (ps_counts cfg) i of
        None \<Rightarrow> None
      | Some c \<Rightarrow> Some (cfg\<lparr>ps_counts := (ps_counts cfg)[i := c + ucast d]\<rparr>))"

text \<open>The loop \<open>for (j = 0; j < sieveSize; j++) kCount += kCounts_[i][sieve[j]]\<close>.\<close>

fun kCount_loop :: "uint_t list \<Rightarrow> uint8_t list \<Rightarrow> nat list \<Rightarrow> uint_t \<Rightarrow> uint_t option" where
  "kCount_loop tbl sieve [] kCount = Some kCount"
| "kCount_loop tbl sieve (j # js) kCount =
     (case at sieve j of
        None \<Rightarrow> None
      | Some byte \<Rightarrow>
         (case at tbl (unat byte) of
            None \<Rightarrow> None
          | Some c \<Rightarrow> kCount_loop tbl sieve js (kCount + c)))"

text \<open>The loop over the kinds \<open>i\<close>, lines 125 to 132.\<close>

fun count_kinds ::
  "nat list \<Rightarrow> PrimeNumberFinder \<Rightarrow> uint8_t list \<Rightarrow> uint_t \<Rightarrow> PrimeNumberFinder option" where
  "count_kinds [] st sieve sieveSize = Some st"
| "count_kinds (i # is) st sieve sieveSize =
     (if isCount (ps st) i
      then (case at (kCounts st) i of
              None \<Rightarrow> None
            | Some tbl \<Rightarrow>
               (case kCount_loop tbl sieve [0..<unat sieveSize] 0 of
                  None \<Rightarrow> None
                | Some kCount \<Rightarrow>
                   (case add_count (ps st) i kCount of
                      None \<Rightarrow> None
                    | Some cfg \<Rightarrow> count_kinds is (st\<lparr>ps := cfg\<rparr>) sieve sieveSize)))
      else count_kinds is st sieve sieveSize)"

definition count :: "PrimeNumberFinder \<Rightarrow> uint8_t list \<Rightarrow> uint_t \<Rightarrow> PrimeNumberFinder option" where
  "count st sieve sieveSize =
     (case (if isFlag (ps st) COUNT_PRIMES
            then (case primeCount_of sieve sieveSize of
                    None \<Rightarrow> None
                  | Some primeCount \<Rightarrow>
                     (case add_count (ps st) 0 primeCount of
                        None \<Rightarrow> None
                      | Some cfg \<Rightarrow> Some (st\<lparr>ps := cfg\<rparr>)))
            else Some st) of
        None \<Rightarrow> None
      | Some st1 \<Rightarrow> count_kinds [1..<7] st1 sieve sieveSize)"

text \<open>What one call adds to the accumulator of a kind.\<close>

definition delta :: "PrimeNumberFinder \<Rightarrow> PrimeNumberFinder \<Rightarrow> nat \<Rightarrow> uint64_t" where
  "delta st st' k = ps_counts (ps st') ! k - ps_counts (ps st) ! k"

text \<open>The reference counter of the spec: every bit of every byte, one at a time.\<close>

definition bits_of_byte :: "uint8_t \<Rightarrow> nat" where
  "bits_of_byte b = length (filter (bit b) [0..<8])"

definition bit_count_ref :: "uint8_t list \<Rightarrow> nat" where
  "bit_count_ref bytes = sum_list (map bits_of_byte bytes)"

text \<open>The number of pattern occurrences of a kind in a run of bytes.\<close>

definition occurrences :: "nat \<Rightarrow> uint8_t list \<Rightarrow> nat" where
  "occurrences k bytes = sum_list (map (\<lambda>b. submask_count k (ucast b)) bytes)"

text \<open>
  The same count as a loop in the arithmetic of the program: one test and one
  increment of an \<open>uint_t\<close> counter for each of the eight bits of each byte.
\<close>

fun popcount_ref :: "uint8_t list \<Rightarrow> uint_t \<Rightarrow> uint_t" where
  "popcount_ref [] bitCount = bitCount"
| "popcount_ref (b # bytes) bitCount =
     popcount_ref bytes (fold (\<lambda>i c. if bit b i then c + 1 else c) [0..<8] bitCount)"

text \<open>
  The sum of the table entries of the bytes of a segment, in \<open>uint_t\<close> arithmetic.
\<close>

definition tuplet_delta :: "nat \<Rightarrow> uint8_t list \<Rightarrow> uint_t \<Rightarrow> uint_t" where
  "tuplet_delta k sieve sieveSize =
     sum_list (map (\<lambda>j. table_of k ! unat (sieve ! j)) [0..<unat sieveSize])"

text \<open>What a segment contributes to the accumulator of a kind, as an \<open>uint_t\<close>.\<close>

definition segment_delta :: "nat \<Rightarrow> uint8_t list \<Rightarrow> uint_t \<Rightarrow> uint_t" where
  "segment_delta k sieve sieveSize =
     (if k = 0 then of_nat (bit_count_ref (take (unat sieveSize) sieve))
      else tuplet_delta k sieve sieveSize)"

section \<open>Generation\<close>

text \<open>
  What \<open>generate\<close> and \<open>segmentProcessed\<close> do to the world outside the object, in
  the order in which they do it: taking and releasing the lock of \<open>PrimeSieve\<close>, one
  insertion into \<open>std::cout\<close>, one call of a callback, one call of \<open>updateStatus\<close>.
\<close>

datatype event =
    LockAcquire
  | LockRelease
  | Cout string
  | Callback32 uint32_t
  | Callback64 uint64_t
  | Callback32_OOP uint32_t nat
  | Callback64_OOP uint64_t nat
  | UpdateStatus uint_t

text \<open>
  Modelled from the spec: \<open>getNextPrime\<close> is defined in \<open>SieveOfEratosthenes-inline.h\<close>,
  which is not among the sources. The spec has it convert a segment offset and a bit
  position to the number they stand for, through the wheel and offset mapping of the
  sieve engine, consuming the bits of the mask one after the other. The mapping is the
  parameter \<open>wheel\<close> (byte index, then bit position); the bit consumed is the lowest
  one set, and asking for the next prime of an empty mask is an error.
\<close>

type_synonym wheel = "nat \<Rightarrow> nat \<Rightarrow> uint64_t"

definition getNextPrime :: "wheel \<Rightarrow> nat \<Rightarrow> uint_t \<Rightarrow> (uint64_t \<times> uint_t) option" where
  "getNextPrime w index bits =
     (case find (bit bits) [0..<32] of
        None \<Rightarrow> None
      | Some n \<Rightarrow> Some (w index n, bits AND (bits - 1)))"

text \<open>The decimal digits that \<open>operator<<\<close> writes for an unsigned integer.\<close>

fun dec :: "nat \<Rightarrow> string" where
  "dec n = (if n < 10 then [''0123456789'' ! n]
            else dec (n div 10) @ [''0123456789'' ! (n mod 10)])"

declare dec.simps [simp del]

subsection \<open>Printing the tuplets\<close>

text \<open>
  The loop \<open>while (bits != 0)\<close> of lines 151 to 154, which appends to the string
  stream \<open>kTuplet\<close>.
\<close>

function kTuplet_loop :: "wheel \<Rightarrow> nat \<Rightarrow> uint_t \<Rightarrow> string \<Rightarrow> string option" where
  "kTuplet_loop w j bits kTuplet =
     (if bits = 0 then Some kTuplet
      else (case getNextPrime w j bits of
              None \<Rightarrow> None
            | Some (prime, bits') \<Rightarrow>
                kTuplet_loop w j bits'
                  (kTuplet @ dec (unat prime) @
                    (if bits' \<noteq> 0 then '', '' else '')\<newline>''))))"
  by pat_completeness auto
termination
proof (relation "measure (\<lambda>(w, j, bits, kTuplet). unat bits)")
  show "wf (measure (\<lambda>(w, j, bits, kTuplet). unat bits))" by simp
next
  fix w :: wheel and j :: nat and bits bits' :: uint_t and kTuplet :: string
    and x :: "uint64_t \<times> uint_t" and prime :: uint64_t
  assume nz: "bits \<noteq> 0" and g: "getNextPrime w j bits = Some x" and x: "(prime, bits') = x"
  from g x have b: "bits' = bits AND (bits - 1)"
    by (auto simp: getNextPrime_def split: option.splits)
  from nz have "unat (bits - 1) = unat bits - 1" by (rule unat_minus_one)
  moreover have "0 < unat bits" using nz by (simp add: unat_gt_0)
  moreover have "unat (bits AND (bits - 1)) \<le> unat (bits - 1)"
    using word_and_le1 [of bits "bits - 1"] by (simp only: word_le_nat_alt)
  ultimately have "unat bits' < unat bits" unfolding b by linarith
  then show "((w, j, bits', kTuplet @ dec (unat prime) @ (if bits' \<noteq> 0 then '', '' else '')\<newline>'')),
              (w, j, bits, kTuplet)) \<in> measure (\<lambda>(w, j, bits, kTuplet). unat bits)"
    by simp
qed

declare kTuplet_loop.simps [simp del]

text \<open>
  The loop over the bitmasks of the selected kind for the byte \<open>sieve[j]\<close>, lines 146
  to 157. Each match is one insertion of the finished string into \<open>std::cout\<close>.
\<close>

fun bitmask_print :: "wheel \<Rightarrow> uint_t list \<Rightarrow> nat \<Rightarrow> uint_t \<Rightarrow> event list option" where
  "bitmask_print w [] j byte = None"
| "bitmask_print w (bitmask # rest) j byte =
     (if bitmask \<le> byte
      then (case (if byte AND bitmask = bitmask
                  then map_option (\<lambda>kTuplet. [Cout kTuplet]) (kTuplet_loop w j bitmask ''('')
                  else Some []) of
              None \<Rightarrow> None
            | Some out \<Rightarrow> map_option ((@) out) (bitmask_print w rest j byte))
      else Some [])"

text \<open>The loop over the bytes of the segment, line 145.\<close>

fun print_tuplets :: "wheel \<Rightarrow> uint_t list \<Rightarrow> uint8_t list \<Rightarrow> nat list \<Rightarrow> event list option" where
  "print_tuplets w masks sieve [] = Some []"
| "print_tuplets w masks sieve (j # js) =
     (case at sieve j of
        None \<Rightarrow> None
      | Some byte \<Rightarrow>
         (case bitmask_print w masks j (ucast byte) of
            None \<Rightarrow> None
          | Some out \<Rightarrow> map_option ((@) out) (print_tuplets w masks sieve js)))"

text \<open>
  The search \<open>for (; !ps_.isPrint(i); i++);\<close> of line 142 has no bound of its own.
\<close>

partial_function (option) find_print :: "PrimeSieve \<Rightarrow> nat \<Rightarrow> nat option" where
  "find_print cfg i = (if isPrint cfg i then Some i else find_print cfg (i + 1))"

declare find_print.simps [code]

subsection \<open>Calling back the primes\<close>

text \<open>
  Modelled from the spec: the macro \<open>GENERATE_PRIMES\<close> is defined in \<open>GENERATE.h\<close>,
  which is not among the sources. The spec has it convert every set bit of the
  segment, in ascending order, to the number it stands for and deliver it to the
  sink. The model walks the bytes in order and hands each byte's bits, lowest first,
  to \<open>getNextPrime\<close>.
\<close>

function bits_loop :: "(uint64_t \<Rightarrow> event list) \<Rightarrow> wheel \<Rightarrow> nat \<Rightarrow> uint_t \<Rightarrow> event list option" where
  "bits_loop callback w j bits =
     (if bits = 0 then Some []
      else (case getNextPrime w j bits of
              None \<Rightarrow> None
            | Some (prime, bits') \<Rightarrow>
                map_option ((@) (callback prime)) (bits_loop callback w j bits')))"
  by pat_completeness auto
termination
proof (relation "measure (\<lambda>(callback, w, j, bits). unat bits)")
  show "wf (measure (\<lambda>(callback, w, j, bits). unat bits))" by simp
next
  fix callback :: "uint64_t \<Rightarrow> event list" and w :: wheel and j :: nat
    and bits bits' :: uint_t and x :: "uint64_t \<times> uint_t" and prime :: uint64_t
  assume nz: "bits \<noteq> 0" and g: "getNextPrime w j bits = Some x" and x: "(prime, bits') = x"
  from g x have b: "bits' = bits AND (bits - 1)"
    by (auto simp: getNextPrime_def split: option.splits)
  from nz have "unat (bits - 1) = unat bits - 1" by (rule unat_minus_one)
  moreover have "0 < unat bits" using nz by (simp add: unat_gt_0)
  moreover have "unat (bits AND (bits - 1)) \<le> unat (bits - 1)"
    using word_and_le1 [of bits "bits - 1"] by (simp only: word_le_nat_alt)
  ultimately have "unat bits' < unat bits" unfolding b by linarith
  then show "((callback, w, j, bits'), (callback, w, j, bits))
              \<in> measure (\<lambda>(callback, w, j, bits). unat bits)"
    by simp
qed

declare bits_loop.simps [simp del]

fun GENERATE_PRIMES ::
  "(uint64_t \<Rightarrow> event list) \<Rightarrow> wheel \<Rightarrow> uint8_t list \<Rightarrow> nat list \<Rightarrow> event list option" where
  "GENERATE_PRIMES callback w sieve [] = Some []"
| "GENERATE_PRIMES callback w sieve (j # js) =
     (case at sieve j of
        None \<Rightarrow> None
      | Some byte \<Rightarrow>
         (case bits_loop callback w j (ucast byte) of
            None \<Rightarrow> None
          | Some out \<Rightarrow> map_option ((@) out) (GENERATE_PRIMES callback w sieve js)))"

text \<open>The five sinks of lines 164 to 168 and 172 to 182.\<close>

definition callback32 :: "uint64_t \<Rightarrow> event list" where
  "callback32 prime = [Callback32 (ucast prime)]"

definition callback64 :: "uint64_t \<Rightarrow> event list" where
  "callback64 prime = [Callback64 prime]"

definition callback32_OOP :: "PrimeSieve \<Rightarrow> uint64_t \<Rightarrow> event list" where
  "callback32_OOP cfg prime = [Callback32_OOP (ucast prime) (ps_obj cfg)]"

definition callback64_OOP :: "PrimeSieve \<Rightarrow> uint64_t \<Rightarrow> event list" where
  "callback64_OOP cfg prime = [Callback64_OOP prime (ps_obj cfg)]"

definition print :: "uint64_t \<Rightarrow> event list" where
  "print prime = [Cout (dec (unat prime)), Cout ''\<newline>'']"

text \<open>One line \<open>if (ps_.isFlag(f)) GENERATE_PRIMES(callback, T)\<close>.\<close>

definition generate_if ::
  "PrimeSieve \<Rightarrow> flag \<Rightarrow> (uint64_t \<Rightarrow> event list) \<Rightarrow> wheel \<Rightarrow> uint8_t list \<Rightarrow> uint_t
     \<Rightarrow> event list option" where
  "generate_if cfg f callback w sieve sieveSize =
     (if isFlag cfg f then GENERATE_PRIMES callback w sieve [0..<unat sieveSize] else Some [])"

subsection \<open>\<open>generate\<close>\<close>

text \<open>
  The guard object \<open>LockGuard lock(ps_)\<close> takes the lock where it is declared and
  releases it at the end of its block, here the \<open>else\<close> branch.
\<close>

definition generate ::
  "PrimeNumberFinder \<Rightarrow> wheel \<Rightarrow> uint8_t list \<Rightarrow> uint_t \<Rightarrow> event list option" where
  "generate st w sieve sieveSize =
     (if isFlag2 (ps st) PRINT_TWINS PRINT_SEPTUPLETS
      then (case find_print (ps st) 1 of
              None \<Rightarrow> None
            | Some i \<Rightarrow>
               (case at kTupletBitmasks i of
                  None \<Rightarrow> None
                | Some masks \<Rightarrow> print_tuplets w masks sieve [0..<unat sieveSize]))
      else (case generate_if (ps st) CALLBACK32_PRIMES callback32 w sieve sieveSize of
              None \<Rightarrow> None
            | Some e1 \<Rightarrow>
          (case generate_if (ps st) CALLBACK64_PRIMES callback64 w sieve sieveSize of
              None \<Rightarrow> None
            | Some e2 \<Rightarrow>
          (case generate_if (ps st) CALLBACK32_OOP_PRIMES (callback32_OOP (ps st)) w sieve sieveSize of
              None \<Rightarrow> None
            | Some e3 \<Rightarrow>
          (case generate_if (ps st) CALLBACK64_OOP_PRIMES (callback64_OOP (ps st)) w sieve sieveSize of
              None \<Rightarrow> None
            | Some e4 \<Rightarrow>
          (case generate_if (ps st) PRINT_PRIMES print w sieve sieveSize of
              None \<Rightarrow> None
            | Some e5 \<Rightarrow> Some ([LockAcquire] @ e1 @ e2 @ e3 @ e4 @ e5 @ [LockRelease])))))))"

subsection \<open>\<open>segmentProcessed\<close>\<close>

text \<open>
  The constant \<open>NUMBERS_PER_BYTE\<close> belongs to the base class \<open>SieveOfEratosthenes\<close>,
  whose header is not among the sources; it is a parameter here, next to the wheel.
\<close>

definition segmentProcessed ::
  "uint_t \<Rightarrow> PrimeNumberFinder \<Rightarrow> wheel \<Rightarrow> uint8_t list \<Rightarrow> uint_t
     \<Rightarrow> (PrimeNumberFinder \<times> event list) option" where
  "segmentProcessed NUMBERS_PER_BYTE st w sieve sieveSize =
     (case (if isCount0 (ps st) then count st sieve sieveSize else Some st) of
        None \<Rightarrow> None
      | Some st1 \<Rightarrow>
         (case (if isGenerate (ps st1) then generate st1 w sieve sieveSize else Some []) of
            None \<Rightarrow> None
          | Some out \<Rightarrow>
              Some (st1, out @ (if isStatus (ps st1)
                               then [UpdateStatus (sieveSize * NUMBERS_PER_BYTE)] else []))))"

section \<open>The output, as the spec describes it\<close>

text \<open>
  A record of the spec: the values of a group in parentheses, separated by a comma
  and a blank, closed by a newline.
\<close>

fun join_values :: "uint64_t list \<Rightarrow> string" where
  "join_values [] = []"
| "join_values [v] = dec (unat v)"
| "join_values (v # v' # vs) = dec (unat v) @ '', '' @ join_values (v' # vs)"

definition record_text :: "uint64_t list \<Rightarrow> string" where
  "record_text vs = ''('' @ join_values vs @ '')\<newline>''"

text \<open>The numbers a mask stands for in byte \<open>j\<close>, lowest bit first.\<close>

definition group_values :: "wheel \<Rightarrow> nat \<Rightarrow> uint_t \<Rightarrow> uint64_t list" where
  "group_values w j p = map (w j) (set_bits p)"

text \<open>
  One record for every byte and every pattern of the kind contained in it: the bytes
  in segment order, the patterns of a byte in table order.
\<close>

definition byte_records :: "nat \<Rightarrow> wheel \<Rightarrow> nat \<Rightarrow> uint8_t \<Rightarrow> event list" where
  "byte_records k w j byte =
     map (\<lambda>p. Cout (record_text (group_values w j p)))
         (filter (\<lambda>p. ucast byte AND p = p) (patterns k))"

definition tuplet_records :: "nat \<Rightarrow> wheel \<Rightarrow> uint8_t list \<Rightarrow> nat \<Rightarrow> event list" where
  "tuplet_records k w sieve n = concat (map (\<lambda>j. byte_records k w j (sieve ! j)) [0..<n])"


text \<open>The numbers of all set bits of the first \<open>n\<close> bytes, in segment order.\<close>

definition primes_of :: "wheel \<Rightarrow> uint8_t list \<Rightarrow> nat \<Rightarrow> uint64_t list" where
  "primes_of w sieve n = concat (map (\<lambda>j. map (w j) (set_bits (sieve ! j))) [0..<n])"

text \<open>
  An event that hands a value to a sink, and the discipline of the lock: no such
  event happens while the lock is not held.
\<close>

fun is_delivery :: "event \<Rightarrow> bool" where
  "is_delivery LockAcquire = False"
| "is_delivery LockRelease = False"
| "is_delivery (UpdateStatus n) = False"
| "is_delivery e = True"

fun is_lock :: "event \<Rightarrow> bool" where
  "is_lock LockAcquire = True"
| "is_lock LockRelease = True"
| "is_lock e = False"

fun is_status :: "event \<Rightarrow> bool" where
  "is_status (UpdateStatus n) = True"
| "is_status e = False"

fun lock_discipline :: "bool \<Rightarrow> event list \<Rightarrow> bool" where
  "lock_discipline held [] = True"
| "lock_discipline held (LockAcquire # es) = lock_discipline True es"
| "lock_discipline held (LockRelease # es) = lock_discipline False es"
| "lock_discipline held (e # es) = ((is_delivery e \<longrightarrow> held) \<and> lock_discipline held es)"

text \<open>
  What the single-value mode hands to the sinks for a list of numbers: every enabled
  sink gets the whole list, the sinks in the order of lines 164 to 168.
\<close>

definition prime_deliveries :: "PrimeSieve \<Rightarrow> uint64_t list \<Rightarrow> event list" where
  "prime_deliveries cfg primes =
     (if isFlag cfg CALLBACK32_PRIMES then concat (map callback32 primes) else []) @
     (if isFlag cfg CALLBACK64_PRIMES then concat (map callback64 primes) else []) @
     (if isFlag cfg CALLBACK32_OOP_PRIMES then concat (map (callback32_OOP cfg) primes) else []) @
     (if isFlag cfg CALLBACK64_OOP_PRIMES then concat (map (callback64_OOP cfg) primes) else []) @
     (if isFlag cfg PRINT_PRIMES then concat (map print primes) else [])"

section \<open>Concrete inputs\<close>

text \<open>
  A configuration that counts primes and twins, one that counts twins only, and a
  segment of two bytes: the twin 11, 13 alone, then all eight candidates.
\<close>

definition cfg_mixed :: PrimeSieve where
  "cfg_mixed = \<lparr> ps_flags = {COUNT_PRIMES, COUNT_TWINS}, ps_start = 0, ps_stop = 100,
     ps_preSieve = 19, ps_sieveSize = 32, ps_counts = replicate 7 0, ps_obj = 0 \<rparr>"

definition cfg_twins :: PrimeSieve where
  "cfg_twins = \<lparr> ps_flags = {COUNT_TWINS}, ps_start = 0, ps_stop = 100,
     ps_preSieve = 19, ps_sieveSize = 32, ps_counts = replicate 7 0, ps_obj = 0 \<rparr>"

definition sieve2 :: "uint8_t list" where
  "sieve2 = [0x06, 0xff]"

text \<open>
  A wheel mapping of the kind the engine supplies: thirty numbers to the byte,
  counted from zero, and the eight residues coprime to 30 as the bit values.
\<close>

definition wheel30 :: wheel where
  "wheel30 j n = of_nat (30 * j + [7, 11, 13, 17, 19, 23, 29, 31] ! n)"


text \<open>Processors as the constructor leaves them when no tuplet count is requested.\<close>

definition finder :: "flag set \<Rightarrow> PrimeNumberFinder" where
  "finder fs = \<lparr> soe_start = 7, soe_stop = 100, soe_preSieve = 19, soe_sieveSize = 32,
     ps = \<lparr> ps_flags = fs, ps_start = 0, ps_stop = 100, ps_preSieve = 19,
            ps_sieveSize = 32, ps_counts = replicate 7 0, ps_obj = 0 \<rparr>,
     kCounts = replicate 7 [] \<rparr>"


text \<open>A processor that counts twins only, before its tables are built.\<close>

definition st_twins :: PrimeNumberFinder where
  "st_twins = \<lparr> soe_start = 7, soe_stop = 100, soe_preSieve = 19, soe_sieveSize = 32,
     ps = \<lparr> ps_flags = {COUNT_TWINS}, ps_start = 0, ps_stop = 100, ps_preSieve = 19,
            ps_sieveSize = 32, ps_counts = replicate 7 0, ps_obj = 0 \<rparr>,
     kCounts = replicate 7 [] \<rparr>"

section \<open>Clearing the lowest set bit\<close>

lemma bit_nat_pred:
  "0 < (n::nat) \<Longrightarrow> bit (n - 1) i \<longleftrightarrow> (if \<exists>j<i. bit n j then bit n i else \<not> bit n i)"
proof (induction i arbitrary: n)
  case 0
  then show ?case by (simp add: bit_0)
next
  case (Suc i)
  show ?case
  proof (cases "odd n")
    case True
    then have "(n - 1) div 2 = n div 2" by (cases n) (auto elim!: oddE)
    moreover from True have "\<exists>j<Suc i. bit n j" by (auto simp: bit_0 intro!: exI [of _ 0])
    ultimately show ?thesis by (simp add: bit_Suc)
  next
    case False
    with Suc.prems have h: "0 < n div 2" and d: "(n - 1) div 2 = n div 2 - 1"
      by (auto elim!: evenE)
    from False have e: "(\<exists>j<Suc i. bit n j) \<longleftrightarrow> (\<exists>j<i. bit (n div 2) j)"
      by (simp add: Ex_less_Suc2 bit_0 bit_Suc)
    show ?thesis
      unfolding e using Suc.IH [OF h] d by (simp add: bit_Suc)
  qed
qed

lemma bit_clear_lowest:
  fixes v :: "'a::len word"
  assumes "v \<noteq> 0"
  shows "bit (v AND (v - 1)) i \<longleftrightarrow> bit v i \<and> (\<exists>j<i. bit v j)"
proof -
  have b: "\<And>w :: 'a word. \<And>k. bit (unat w) k = bit w k"
    by (simp add: bit_unsigned_iff)
  from assms have p: "0 < unat v" by (simp add: unat_gt_0)
  have "bit (v - 1) i = bit (unat v - 1) i"
    using b [of "v - 1" i] unat_minus_one [OF assms] by simp
  also have "\<dots> = (if \<exists>j<i. bit (unat v) j then bit (unat v) i else \<not> bit (unat v) i)"
    by (rule bit_nat_pred [OF p])
  finally have "bit (v - 1) i = (if \<exists>j<i. bit v j then bit v i else \<not> bit v i)"
    by (simp only: b)
  then show ?thesis by (auto simp: bit_and_iff)
qed

lemma set_bits_step:
  fixes v :: "'a::len word"
  assumes "v \<noteq> 0"
  shows "\<exists>l. find (bit v) [0..<LENGTH('a)] = Some l \<and> set_bits v = l # set_bits (v AND (v - 1))"
proof -
  from assms obtain k where k: "bit v k"
    by (auto simp: bit_eq_iff)
  define l where "l = (LEAST i. bit v i)"
  have l: "bit v l" unfolding l_def using k by (rule LeastI)
  have m: "\<And>j. j < l \<Longrightarrow> \<not> bit v j" unfolding l_def by (rule not_less_Least)
  from l have ll: "l < LENGTH('a)" by (rule bit_imp_le_length)
  have f: "find (bit v) [0..<LENGTH('a)] = Some l"
    using l m ll by (auto simp: find_Some_iff intro!: exI [of _ l])
  have split: "[0..<LENGTH('a)] = [0..<l] @ l # [Suc l..<LENGTH('a)]"
    using ll by (metis le_add_diff_inverse less_imp_le_nat upt_add_eq_append upt_conv_Cons zero_le)
  have c: "\<And>i. bit (v AND (v - 1)) i \<longleftrightarrow> bit v i \<and> (\<exists>j<i. bit v j)"
    by (rule bit_clear_lowest [OF assms])
  have 1: "filter (bit v) [0..<l] = []" using m by (simp add: filter_empty_conv)
  have 2: "filter (bit (v AND (v - 1))) [0..<l] = []" using m c by (simp add: filter_empty_conv)
  have 3: "\<not> bit (v AND (v - 1)) l" using m c by simp
  have 4: "filter (bit (v AND (v - 1))) [Suc l..<LENGTH('a)] = filter (bit v) [Suc l..<LENGTH('a)]"
  proof (rule filter_cong [OF refl])
    fix x assume "x \<in> set [Suc l..<LENGTH('a)]"
    then have "l < x" by simp
    with l have "\<exists>j<x. bit v j" by blast
    then show "bit (v AND (v - 1)) x = bit v x" using c by simp
  qed
  have A: "set_bits v = l # filter (bit v) [Suc l..<LENGTH('a)]"
    unfolding set_bits_def by (subst split) (simp add: 1 l)
  have B: "set_bits (v AND (v - 1)) = filter (bit v) [Suc l..<LENGTH('a)]"
    unfolding set_bits_def by (subst split) (simp add: 2 3 4)
  show ?thesis using f A B by simp
qed

lemma kernighan_loop_count:
  "kernighan_loop v c = c + of_nat (length (set_bits v))"
proof (induction v c rule: kernighan_loop.induct)
  case (1 v c)
  show ?case
  proof (cases "v = 0")
    case True
    then show ?thesis by (simp add: kernighan_loop.simps set_bits_def)
  next
    case False
    from set_bits_step [OF False] obtain l where "set_bits v = l # set_bits (v AND (v - 1))"
      by blast
    with False 1 show ?thesis
      by (subst kernighan_loop.simps) simp
  qed
qed

section \<open>The tables built by \<open>initCounts\<close>\<close>

lemma and_eq_le: "(j::'a::len word) AND p = p \<Longrightarrow> p \<le> j"
  using word_and_le2 [of j p] by simp

lemma scan_sorted:
  "sorted (pats @ [e]) \<Longrightarrow> j < e \<Longrightarrow>
   bitmask_scan (pats @ e # rest) j c = Some (c + of_nat (length (filter (\<lambda>p. j AND p = p) pats)))"
proof (induction pats arbitrary: c)
  case Nil
  then show ?case by (auto dest: leD)
next
  case (Cons p pats)
  show ?case
  proof (cases "p \<le> j")
    case True
    with Cons show ?thesis by (simp add: )
  next
    case False
    have "\<forall>q \<in> set (p # pats). \<not> (j AND q = q)"
    proof
      fix q assume "q \<in> set (p # pats)"
      with Cons.prems have "p \<le> q" by auto
      with False have "\<not> q \<le> j" by simp
      then show "\<not> (j AND q = q)" using and_eq_le by blast
    qed
    then have "filter (\<lambda>p. j AND p = p) (p # pats) = []" by (simp add: filter_empty_conv)
    with False show ?thesis by simp
  qed
qed

lemma row_split:
  "k \<in> {1..6} \<Longrightarrow> \<exists>rest. kTupletBitmasks ! k = patterns k @ END # rest \<and> sorted (patterns k @ [END])"
proof -
  assume "k \<in> {1..6}"
  then have "k = 1 \<or> k = 2 \<or> k = 3 \<or> k = 4 \<or> k = 5 \<or> k = 6" by auto
  then show ?thesis
    by (elim disjE) (simp_all add: patterns_def kTupletBitmasks_def END_def)
qed

lemma byte_less_END: "j < 256 \<Longrightarrow> (of_nat j :: uint_t) < END"
  by (simp add: END_def word_less_nat_alt unat_of_nat)

lemma scan_row:
  assumes "k \<in> {1..6}" "j < 256"
  shows "bitmask_scan (kTupletBitmasks ! k) (of_nat j) 0 = Some (of_nat (submask_count k (of_nat j)))"
proof -
  from row_split [OF assms(1)] obtain rest where
    r: "kTupletBitmasks ! k = patterns k @ END # rest" and s: "sorted (patterns k @ [END])"
    by blast
  show ?thesis
    unfolding r using scan_sorted [OF s byte_less_END [OF assms(2)], of rest 0]
    by (simp add: submask_count_def)
qed

lemma initCounts_row_fold:
  "(\<And>j. j \<in> set js \<Longrightarrow> bitmask_scan masks (of_nat j) 0 = Some (f j)) \<Longrightarrow>
   initCounts_row masks js tbl = Some (fold (\<lambda>j t. t[j := f j]) js tbl)"
  by (induction js arbitrary: tbl) simp_all

lemma fold_update_upt:
  "m \<le> length tbl \<Longrightarrow> fold (\<lambda>j t. t[j := f j]) [0..<m] tbl = map f [0..<m] @ drop m tbl"
proof (induction m)
  case 0
  then show ?case by simp
next
  case (Suc m)
  then have "fold (\<lambda>j t. t[j := f j]) [0..<Suc m] tbl = (map f [0..<m] @ drop m tbl)[m := f m]"
    by simp
  also have "\<dots> = map f [0..<m] @ (drop m tbl)[0 := f m]"
    by (simp add: list_update_append)
  also have "(drop m tbl)[0 := f m] = f m # drop (Suc m) tbl"
    using Suc.prems Cons_nth_drop_Suc [of m tbl, symmetric] by simp
  finally show ?case by simp
qed

lemma initCounts_row_table:
  assumes "k \<in> {1..6}" "length v = 256"
  shows "initCounts_row (kTupletBitmasks ! k) [0..<256] v = Some (table_of k)"
proof -
  have "initCounts_row (kTupletBitmasks ! k) [0..<256] v
      = Some (fold (\<lambda>j t. t[j := of_nat (submask_count k (of_nat j))]) [0..<256] v)"
    by (rule initCounts_row_fold) (simp add: scan_row [OF assms(1)])
  also have "fold (\<lambda>j t. t[j := of_nat (submask_count k (of_nat j))]) [0..<256] v = table_of k"
    using fold_update_upt [of 256 v "\<lambda>j. of_nat (submask_count k (of_nat j))"] assms(2)
    by (simp add: table_of_def)
  finally show ?thesis .
qed

lemma length_resize: "length (resize v n) = n"
  by (simp add: resize_def)

lemma initCounts_loop_spec:
  assumes "length (kCounts st) = 7" "set is \<subseteq> {1..6}"
  shows "\<exists>st'. initCounts_loop is st = Some st' \<and> st' = st\<lparr>kCounts := kCounts st'\<rparr> \<and>
           length (kCounts st') = 7 \<and>
           (\<forall>i<7. kCounts st' ! i =
              (if i \<in> set is \<and> isCount (ps st) i then table_of i else kCounts st ! i))"
  using assms
proof (induction "is" arbitrary: st)
  case Nil
  then show ?case by simp
next
  case (Cons i "is")
  from Cons.prems have ik: "i \<in> {1..6}" and rest: "set is \<subseteq> {1..6}" by auto
  show ?case
  proof (cases "isCount (ps st) i")
    case False
    with Cons.IH [OF Cons.prems(1) rest] show ?thesis by auto
  next
    case True
    let ?st1 = "st\<lparr>kCounts := (kCounts st)[i := table_of i]\<rparr>"
    have step: "initCounts_loop (i # is) st = initCounts_loop is ?st1"
      using True ik Cons.prems(1)
      by (simp add: at_def kTupletBitmasks_def [THEN arg_cong, of length] length_resize
          initCounts_row_table [OF ik length_resize])
    have "length (kCounts ?st1) = 7" using Cons.prems(1) by simp
    from Cons.IH [OF this rest] obtain st' where
      a: "initCounts_loop is ?st1 = Some st'" and b: "st' = ?st1\<lparr>kCounts := kCounts st'\<rparr>"
      and c: "length (kCounts st') = 7"
      and d: "\<forall>j<7. kCounts st' ! j =
              (if j \<in> set is \<and> isCount (ps ?st1) j then table_of j else kCounts ?st1 ! j)"
      by blast
    have "st' = st\<lparr>kCounts := kCounts st'\<rparr>" using b by (cases st) simp 
    moreover have "\<forall>j<7. kCounts st' ! j =
              (if j \<in> set (i # is) \<and> isCount (ps st) j then table_of j else kCounts st ! j)"
      using d True Cons.prems(1) ik by (auto simp: nth_list_update)
    ultimately show ?thesis using step a c by simp
  qed
qed


lemma initCounts_tables:
  assumes "length (kCounts st) = 7"
  shows "\<exists>st'. initCounts st = Some st' \<and> st' = st\<lparr>kCounts := kCounts st'\<rparr> \<and>
           length (kCounts st') = 7 \<and>
           (\<forall>i<7. kCounts st' ! i =
              (if 1 \<le> i \<and> isCount (ps st) i then table_of i else kCounts st ! i))"
proof -
  have s: "set [1..<7] \<subseteq> {1..6::nat}" by auto
  have m: "\<And>i. i < 7 \<Longrightarrow> i \<in> set [1..<7] \<longleftrightarrow> 1 \<le> i" by auto
  from initCounts_loop_spec [OF assms s] obtain st' where
    a: "initCounts_loop [1..<7] st = Some st'" "st' = st\<lparr>kCounts := kCounts st'\<rparr>"
       "length (kCounts st') = 7"
    and d: "\<forall>i<7. kCounts st' ! i =
              (if i \<in> set [1..<7] \<and> isCount (ps st) i then table_of i else kCounts st ! i)"
    by blast
  from d m have "\<forall>i<7. kCounts st' ! i =
              (if 1 \<le> i \<and> isCount (ps st) i then table_of i else kCounts st ! i)"
    by simp
  with a show ?thesis unfolding initCounts_def by blast
qed

lemma table_of_nth:
  "j < 256 \<Longrightarrow> table_of k ! j = of_nat (submask_count k (of_nat j))"
  by (simp add: table_of_def)

lemma length_table_of: "length (table_of k) = 256"
  by (simp add: table_of_def)

lemma length_patterns: "k \<in> {1..6} \<Longrightarrow> length (patterns k) \<le> 4"
proof -
  assume "k \<in> {1..6}"
  then have "k = 1 \<or> k = 2 \<or> k = 3 \<or> k = 4 \<or> k = 5 \<or> k = 6" by auto
  then show ?thesis
    by (elim disjE) (simp_all add: patterns_def kTupletBitmasks_def END_def)
qed

lemma submask_count_le: "k \<in> {1..6} \<Longrightarrow> submask_count k j \<le> 4"
  unfolding submask_count_def
  using length_filter_le [of "\<lambda>p. j AND p = p" "patterns k"] length_patterns [of k] by linarith

lemma unat_submask_count:
  "k \<in> {1..6} \<Longrightarrow> unat (of_nat (submask_count k j) :: uint_t) = submask_count k j"
  using submask_count_le [of k j] by (simp add: unat_of_nat)

lemma patterns_nonzero: "k \<in> {1..6} \<Longrightarrow> 0 \<notin> set (patterns k)"
proof -
  assume "k \<in> {1..6}"
  then have "k = 1 \<or> k = 2 \<or> k = 3 \<or> k = 4 \<or> k = 5 \<or> k = 6" by auto
  then show ?thesis
    by (elim disjE) (simp_all add: patterns_def kTupletBitmasks_def END_def)
qed

lemma submask_count_zero: "k \<in> {1..6} \<Longrightarrow> submask_count k 0 = 0"
  using patterns_nonzero [of k] by (auto simp: submask_count_def filter_empty_conv)

lemma length_filter_mono:
  "(\<And>x. x \<in> set xs \<Longrightarrow> P x \<Longrightarrow> Q x) \<Longrightarrow> length (filter P xs) \<le> length (filter Q xs)"
  by (induction xs) auto

lemma submask_count_mono:
  assumes "b1 AND b2 = b1"
  shows "submask_count k b1 \<le> submask_count k b2"
  unfolding submask_count_def
proof (rule length_filter_mono)
  fix p assume p: "b1 AND p = p"
  have "b2 AND p = b2 AND (b1 AND p)" using p by simp
  also have "\<dots> = (b1 AND b2) AND p" by (simp add: ac_simps)
  also have "\<dots> = p" using assms p by simp
  finally show "b2 AND p = p" .
qed

lemma isCount_less: "isCount cfg k \<Longrightarrow> k < 7"
  by (simp add: isCount_def)

text \<open>
  C2: for every requested kind \<open>k\<close> from 1 to 6 and every byte value \<open>j\<close> below 256, the
  entry that \<open>initCounts\<close> stores, scanning the sorted row and stopping at the first
  pattern above \<open>j\<close>, is the number of patterns of the kind that are submasks of \<open>j\<close>,
  counted over all of them.
\<close>

theorem initCounts_brute_force:
  assumes "length (kCounts st) = 7" and "isCount (ps st) k" and "1 \<le> k" and "j < 256"
  shows "\<exists>st'. initCounts st = Some st' \<and> length (kCounts st' ! k) = 256 \<and>
               kCounts st' ! k ! j = of_nat (submask_count k (of_nat j)) \<and>
               unat (kCounts st' ! k ! j) = submask_count k (of_nat j)"
proof -
  from assms(2) have k7: "k < 7" by (rule isCount_less)
  with assms(3) have k: "k \<in> {1..6}" by auto
  from initCounts_tables [OF assms(1)] obtain st' where
    i: "initCounts st = Some st'" and
    t: "\<forall>i<7. kCounts st' ! i = (if 1 \<le> i \<and> isCount (ps st) i then table_of i else kCounts st ! i)"
    by blast
  from t k7 assms(2,3) have "kCounts st' ! k = table_of k" by simp
  then show ?thesis
    using i assms(4) by (simp add: length_table_of table_of_nth unat_submask_count [OF k])
qed

lemma isCount_st_twins: "isCount (ps st_twins) 1"
  by (simp add: st_twins_def isCount_def isFlag_def all_flags_def)

theorem initCounts_brute_force_witness:
  "\<exists>st'. initCounts st_twins = Some st' \<and> length (kCounts st' ! 1) = 256 \<and>
         kCounts st' ! 1 ! 30 = 2 \<and> unat (kCounts st' ! 1 ! 30) = 2"
proof -
  have l: "length (kCounts st_twins) = 7" by (simp add: st_twins_def)
  have c: "submask_count 1 (of_nat 30) = 2"
    by (simp add: submask_count_def patterns_def kTupletBitmasks_def END_def)
  have "\<exists>st'. initCounts st_twins = Some st' \<and> length (kCounts st' ! 1) = 256 \<and>
         kCounts st' ! 1 ! 30 = of_nat (submask_count 1 (of_nat 30)) \<and>
         unat (kCounts st' ! 1 ! 30) = submask_count 1 (of_nat 30)"
    by (rule initCounts_brute_force [OF l isCount_st_twins]) simp_all
  then show ?thesis unfolding c by simp
qed

text \<open>
  C7: for every built kind the entry of the byte value 0 is 0, and the table is
  monotone in the set bits: when the bits of \<open>b1\<close> are among those of \<open>b2\<close>, the entry
  of \<open>b1\<close> is at most the entry of \<open>b2\<close>.
\<close>

theorem kCounts_zero_and_monotone:
  assumes "length (kCounts st) = 7" and "isCount (ps st) k" and "1 \<le> k"
    and "b1 AND b2 = (b1 :: uint8_t)"
  shows "\<exists>st'. initCounts st = Some st' \<and> kCounts st' ! k ! 0 = 0 \<and>
               kCounts st' ! k ! unat b1 \<le> kCounts st' ! k ! unat b2"
proof -
  from assms(2) have k7: "k < 7" by (rule isCount_less)
  with assms(3) have k: "k \<in> {1..6}" by auto
  from initCounts_tables [OF assms(1)] obtain st' where
    i: "initCounts st = Some st'" and
    t: "\<forall>i<7. kCounts st' ! i = (if 1 \<le> i \<and> isCount (ps st) i then table_of i else kCounts st ! i)"
    by blast
  from t k7 assms(2,3) have tk: "kCounts st' ! k = table_of k" by simp
  have z: "table_of k ! 0 = 0"
    using submask_count_zero [OF k] by (simp add: table_of_nth)
  have u: "\<And>b :: uint8_t. table_of k ! unat b = of_nat (submask_count k (ucast b))"
  proof -
    fix b :: uint8_t
    have "unat b < 2 ^ LENGTH(8)" by (rule unsigned_less)
    then have "unat b < 256" by simp
    then show "table_of k ! unat b = of_nat (submask_count k (ucast b))"
      by (simp add: table_of_nth)
  qed
  have "(ucast b1 :: uint_t) AND ucast b2 = ucast b1"
    using assms(4) by (metis unsigned_and_eq)
  then have "submask_count k (ucast b1) \<le> submask_count k (ucast b2)"
    by (rule submask_count_mono)
  then have "(of_nat (submask_count k (ucast b1)) :: uint_t) \<le> of_nat (submask_count k (ucast b2))"
    by (simp add: word_le_nat_alt unat_submask_count [OF k])
  then show ?thesis using i tk z u by simp
qed

theorem kCounts_zero_and_monotone_witness:
  "\<exists>st'. initCounts st_twins = Some st' \<and> kCounts st' ! 1 ! 0 = 0 \<and>
         kCounts st' ! 1 ! unat (0x06 :: uint8_t) \<le> kCounts st' ! 1 ! unat (0x1e :: uint8_t)"
proof -
  have l: "length (kCounts st_twins) = 7" by (simp add: st_twins_def)
  have a: "(0x06 :: uint8_t) AND 0x1e = 0x06" by simp
  have "(1::nat) \<le> 1" by simp
  from kCounts_zero_and_monotone [OF l isCount_st_twins this a] show ?thesis .
qed

section \<open>The prime count of a segment\<close>

lemma bits_of_byte_set_bits: "bits_of_byte b = length (set_bits b)"
  by (simp add: bits_of_byte_def set_bits_def)

lemma set_bits_ucast_byte: "set_bits (ucast (b :: uint8_t) :: uint_t) = set_bits b"
proof -
  have "[0..<32] = [0..<8] @ [8..<32]"
    using upt_add_eq_append [of 0 8 24] by simp
  moreover have "filter (bit (ucast b :: uint_t)) [8..<32] = []"
    by (auto simp: filter_empty_conv bit_ucast_iff dest: bit_imp_le_length)
  moreover have "filter (bit (ucast b :: uint_t)) [0..<8] = filter (bit b) [0..<8]"
    by (rule filter_cong) (auto simp: bit_ucast_iff)
  ultimately show ?thesis by (simp add: set_bits_def)
qed

lemma kernighan_bytes_count:
  "kernighan_bytes bs c = c + of_nat (bit_count_ref bs)"
  by (induction bs arbitrary: c)
     (simp_all add: bit_count_ref_def kernighan_loop_count set_bits_ucast_byte bits_of_byte_set_bits)

lemma popcount_kernighan_count:
  "popcount_kernighan bs = of_nat (bit_count_ref bs)"
  by (simp add: popcount_kernighan_def kernighan_bytes_count)

lemma length_filter_shift:
  "length (filter P [k..<k + m]) = length (filter (\<lambda>i. P (i + k)) [0..<m])"
proof -
  have "[k..<k + m] = map (\<lambda>i. i + k) [0..<m]"
    by (simp add: map_add_upt add.commute)
  then show ?thesis by (simp add: filter_map o_def)
qed

lemma count_load64:
  "8 * length bs \<le> m \<Longrightarrow> m \<le> 64 \<Longrightarrow>
   length (filter (bit (load64 bs)) [0..<m]) = bit_count_ref bs"
proof (induction bs arbitrary: m)
  case Nil
  then show ?case by (simp add: load64_def bit_count_ref_def)
next
  case (Cons b bs)
  let ?w = "load64 bs"
  have l: "load64 (b # bs) = ucast b OR push_bit 8 ?w" by (simp add: load64_def)
  define m' where "m' = m - 8"
  from Cons.prems have m: "m = 8 + m'" and m1: "8 * length bs \<le> m'" and m2: "m' \<le> 64"
    by (simp_all add: m'_def)
  have sp: "[0..<m] = [0..<8] @ [8..<8 + m']" unfolding m
    using upt_add_eq_append [of 0 8 m'] by simp
  have lo: "filter (bit (load64 (b # bs))) [0..<8] = filter (bit b) [0..<8]"
    unfolding l by (rule filter_cong) (auto simp: bit_or_iff bit_ucast_iff bit_push_bit_iff)
  have hi: "length (filter (bit (load64 (b # bs))) [8..<8 + m']) = length (filter (bit ?w) [0..<m'])"
  proof -
    have "length (filter (bit (load64 (b # bs))) [8..<8 + m'])
        = length (filter (\<lambda>i. bit (load64 (b # bs)) (i + 8)) [0..<m'])"
      by (rule length_filter_shift)
    also have "filter (\<lambda>i. bit (load64 (b # bs)) (i + 8)) [0..<m'] = filter (bit ?w) [0..<m']"
    proof (rule filter_cong [OF refl])
      fix i assume "i \<in> set [0..<m']"
      with m Cons.prems have i: "i + 8 < 64" by simp
      have "\<not> bit b (i + 8)" by (auto dest: bit_imp_le_length)
      with i show "bit (load64 (b # bs)) (i + 8) = bit ?w i"
        unfolding l by (simp add: bit_or_iff bit_ucast_iff bit_push_bit_iff)
    qed
    finally show ?thesis .
  qed
  show ?case
    unfolding sp using lo hi Cons.IH [OF m1 m2]
    by (simp add: bit_count_ref_def bits_of_byte_def)
qed

lemma popcount64_load64: "length bs = 8 \<Longrightarrow> popcount64 (load64 bs) = bit_count_ref bs"
  unfolding popcount64_def by (rule count_load64) simp_all

lemma bit_count_ref_append: "bit_count_ref (xs @ ys) = bit_count_ref xs + bit_count_ref ys"
  by (simp add: bit_count_ref_def)

lemma words_count:
  "8 * n \<le> length sieve \<Longrightarrow>
   sum_list (map popcount64 (map (\<lambda>i. load64 (take 8 (drop (8 * i) sieve))) [0..<n]))
     = bit_count_ref (take (8 * n) sieve)"
proof (induction n)
  case 0
  then show ?case by (simp add: bit_count_ref_def)
next
  case (Suc n)
  then have l: "length (take 8 (drop (8 * n) sieve)) = 8" by simp
  have t: "take (8 + 8 * n) sieve = take (8 * n) sieve @ take 8 (drop (8 * n) sieve)"
    using take_add [of "8 * n" 8 sieve] by (simp add: add.commute)
  from Suc show ?case
    by (simp add: t bit_count_ref_append popcount64_load64 [OF l])
qed

lemma primeCount_of_ref:
  assumes "unat sieveSize \<le> length sieve"
  shows "primeCount_of sieve sieveSize = Some (of_nat (bit_count_ref (take (unat sieveSize) sieve)))"
proof -
  let ?n = "unat sieveSize"
  have d: "unat (sieveSize div 8) = ?n div 8" by (simp add: unat_div)
  have m: "unat (sieveSize mod 8) = ?n mod 8" by (simp add: unat_mod)
  have "sieveSize mod 8 \<le> sieveSize" by (simp add: word_le_nat_alt m)
  then have s: "unat (sieveSize - sieveSize mod 8) = ?n - ?n mod 8"
    by (simp add: unat_sub m)
  have e: "?n - ?n mod 8 = 8 * (?n div 8)" by (simp add: minus_mod_eq_mult_div)
  have w: "8 * (?n div 8) \<le> length sieve" using assms by linarith
  have z: "0 < sieveSize mod 8 \<longleftrightarrow> 0 < ?n mod 8"
    by (simp add: word_less_nat_alt m)
  have b: "8 * (?n div 8) + ?n mod 8 \<le> length sieve" using assms by simp
  have t: "take ?n sieve = take (8 * (?n div 8)) sieve @ take (?n mod 8) (drop (8 * (?n div 8)) sieve)"
    using take_add [of "8 * (?n div 8)" "?n mod 8" sieve] by simp
  define ws where "ws = map (\<lambda>i. load64 (take 8 (drop (8 * i) sieve))) [0..<?n div 8]"
  have W: "sieve64 sieve (?n div 8) = Some ws"
    using w by (simp add: sieve64_def ws_def)
  have PL: "popcount_lauradoux ws = of_nat (bit_count_ref (take (8 * (?n div 8)) sieve))"
    unfolding popcount_lauradoux_def ws_def by (simp only: words_count [OF w])
  have B: "bytes_from sieve (8 * (?n div 8)) (?n mod 8)
             = Some (take (?n mod 8) (drop (8 * (?n div 8)) sieve))"
    using b by (simp add: bytes_from_def)
  show ?thesis
  proof (cases "0 < ?n mod 8")
    case True
    then show ?thesis
      by (simp add: primeCount_of_def Let_def d m s e z W PL B
          popcount_kernighan_count t bit_count_ref_append)
  next
    case False
    then have "take ?n sieve = take (8 * (?n div 8)) sieve" using t by simp
    with False show ?thesis
      by (simp add: primeCount_of_def Let_def d m z W PL)
  qed
qed

section \<open>The loops of \<open>count\<close>\<close>

lemma map_nth_upt_take: "n \<le> length xs \<Longrightarrow> map ((!) xs) [0..<n] = take n xs"
  by (simp add: list_eq_iff_nth_eq)

lemma unat_byte_less: "unat (b :: uint8_t) < 256"
proof -
  have "unat b < 2 ^ LENGTH(8)" by (rule unsigned_less)
  then show ?thesis by simp
qed

lemma table_of_byte: "table_of k ! unat (b :: uint8_t) = of_nat (submask_count k (ucast b))"
  using unat_byte_less [of b] by (simp add: table_of_nth)

lemma occurrences_Cons: "occurrences k (b # bs) = submask_count k (ucast b) + occurrences k bs"
  by (simp add: occurrences_def)

lemma kCount_loop_table:
  "\<forall>j\<in>set js. j < length sieve \<Longrightarrow>
   kCount_loop (table_of k) sieve js c =
     Some (c + sum_list (map (\<lambda>j. table_of k ! unat (sieve ! j)) js))"
proof (induction js arbitrary: c)
  case Nil
  then show ?case by simp
next
  case (Cons j js)
  then show ?case
    using unat_byte_less [of "sieve ! j"]
    by (simp add: at_def length_table_of add.assoc)
qed

lemma sum_table_occurrences:
  "sum_list (map (\<lambda>j. table_of k ! unat (sieve ! j)) js)
     = of_nat (occurrences k (map ((!) sieve) js))"
  by (induction js) (simp_all add: occurrences_def table_of_byte)

lemma occurrences_le: "k \<in> {1..6} \<Longrightarrow> occurrences k bytes \<le> 4 * length bytes"
proof (induction bytes)
  case Nil
  then show ?case by (simp add: occurrences_def)
next
  case (Cons b bytes)
  then show ?case
    using submask_count_le [of k "ucast b"] by (simp add: occurrences_Cons)
qed

lemma bits_of_byte_le: "bits_of_byte b \<le> 8"
  unfolding bits_of_byte_def using length_filter_le [of "bit b" "[0..<8]"] by simp

lemma bit_count_ref_le: "bit_count_ref bytes \<le> 8 * length bytes"
proof (induction bytes)
  case Nil
  then show ?case by (simp add: bit_count_ref_def)
next
  case (Cons b bytes)
  then show ?case
    using bits_of_byte_le [of b] by (simp add: bit_count_ref_def)
qed

lemma unat_widen: "c < 2 ^ 32 \<Longrightarrow> unat (ucast (of_nat c :: uint_t) :: uint64_t) = c"
proof -
  assume c: "c < 2 ^ 32"
  then have 1: "unat (of_nat c :: uint_t) = c" by (simp add: unat_of_nat)
  from c have 2: "c < 2 ^ 64" by simp
  have "unat (ucast (of_nat c :: uint_t) :: uint64_t) = take_bit 64 (unat (of_nat c :: uint_t))"
    by (simp add: unsigned_ucast_eq)
  also have "\<dots> = c" unfolding 1 using 2 by (rule take_bit_nat_eq_self)
  finally show ?thesis .
qed

lemma isCount_counts_update [simp]: "isCount (cfg\<lparr>ps_counts := cs\<rparr>) i = isCount cfg i"
  by (simp add: isCount_def isFlag_def)

lemma isFlag_counts_update [simp]: "isFlag (cfg\<lparr>ps_counts := cs\<rparr>) f = isFlag cfg f"
  by (simp add: isFlag_def)

lemma count_kinds_spec:
  assumes "length (kCounts st) = 7"
    and "\<forall>i. 1 \<le> i \<and> isCount (ps st) i \<longrightarrow> kCounts st ! i = table_of i"
    and "length (ps_counts (ps st)) = 7"
    and "unat sieveSize \<le> length sieve"
    and "distinct is" and "set is \<subseteq> {1..6}"
  shows "\<exists>st'. count_kinds is st sieve sieveSize = Some st' \<and>
           st' = st\<lparr>ps := (ps st)\<lparr>ps_counts := ps_counts (ps st')\<rparr>\<rparr> \<and>
           length (ps_counts (ps st')) = 7 \<and>
           (\<forall>i<7. ps_counts (ps st') ! i =
              ps_counts (ps st) ! i +
              (if i \<in> set is \<and> isCount (ps st) i
               then ucast (tuplet_delta i sieve sieveSize) else 0))"
  using assms
proof (induction "is" arbitrary: st)
  case Nil
  then show ?case by simp
next
  case (Cons i "is")
  from Cons.prems have ik: "i \<in> {1..6}" and rest: "set is \<subseteq> {1..6}"
    and di: "distinct is" and ni: "i \<notin> set is" by auto
  show ?case
  proof (cases "isCount (ps st) i")
    case False
    from Cons.IH [OF Cons.prems(1-4) di rest] obtain st' where
      a: "count_kinds is st sieve sieveSize = Some st'"
      and b: "st' = st\<lparr>ps := (ps st)\<lparr>ps_counts := ps_counts (ps st')\<rparr>\<rparr>"
      and c: "length (ps_counts (ps st')) = 7"
      and d: "\<forall>j<7. ps_counts (ps st') ! j = ps_counts (ps st) ! j +
              (if j \<in> set is \<and> isCount (ps st) j then ucast (tuplet_delta j sieve sieveSize) else 0)"
      by blast
    from d False have "\<forall>j<7. ps_counts (ps st') ! j = ps_counts (ps st) ! j +
              (if j \<in> set (i # is) \<and> isCount (ps st) j then ucast (tuplet_delta j sieve sieveSize) else 0)"
      by auto
    with a b c False show ?thesis by auto
  next
    case True
    let ?cs = "ps_counts (ps st)"
    let ?kc = "tuplet_delta i sieve sieveSize"
    let ?st1 = "st\<lparr>ps := (ps st)\<lparr>ps_counts := ?cs[i := ?cs ! i + ucast ?kc]\<rparr>\<rparr>"
    have tb: "kCounts st ! i = table_of i" using Cons.prems(2) True ik by simp
    have kl: "kCount_loop (table_of i) sieve [0..<unat sieveSize] 0 = Some ?kc"
      unfolding tuplet_delta_def using Cons.prems(4)
      by (subst kCount_loop_table) simp_all
    have step: "count_kinds (i # is) st sieve sieveSize = count_kinds is ?st1 sieve sieveSize"
      using True ik Cons.prems(1,3) tb kl by (simp add: at_def add_count_def)
    have p1: "length (kCounts ?st1) = 7" using Cons.prems(1) by simp
    have p2: "\<forall>j. 1 \<le> j \<and> isCount (ps ?st1) j \<longrightarrow> kCounts ?st1 ! j = table_of j"
      using Cons.prems(2) by simp
    have p3: "length (ps_counts (ps ?st1)) = 7" using Cons.prems(3) by simp
    from Cons.IH [OF p1 p2 p3 Cons.prems(4) di rest] obtain st' where
      a: "count_kinds is ?st1 sieve sieveSize = Some st'"
      and b: "st' = ?st1\<lparr>ps := (ps ?st1)\<lparr>ps_counts := ps_counts (ps st')\<rparr>\<rparr>"
      and c: "length (ps_counts (ps st')) = 7"
      and d: "\<forall>j<7. ps_counts (ps st') ! j = ps_counts (ps ?st1) ! j +
              (if j \<in> set is \<and> isCount (ps ?st1) j then ucast (tuplet_delta j sieve sieveSize) else 0)"
      by blast
    have b': "st' = st\<lparr>ps := (ps st)\<lparr>ps_counts := ps_counts (ps st')\<rparr>\<rparr>"
      using b by simp
    have d': "\<forall>j<7. ps_counts (ps st') ! j = ps_counts (ps st) ! j +
              (if j \<in> set (i # is) \<and> isCount (ps st) j then ucast (tuplet_delta j sieve sieveSize) else 0)"
    proof (intro allI impI)
      fix j :: nat assume j: "j < 7"
      show "ps_counts (ps st') ! j = ps_counts (ps st) ! j +
              (if j \<in> set (i # is) \<and> isCount (ps st) j then ucast (tuplet_delta j sieve sieveSize) else 0)"
      proof (cases "j = i")
        case True
        with d j ni \<open>isCount (ps st) i\<close> Cons.prems(3) show ?thesis by simp
      next
        case False
        with d j Cons.prems(3) show ?thesis by simp
      qed
    qed
    from step a b' c d' show ?thesis by simp
  qed
qed

section \<open>\<open>count\<close> and the constructor in closed form\<close>

lemma isCount_0: "isCount cfg 0 \<longleftrightarrow> isFlag cfg COUNT_PRIMES"
  by (simp add: isCount_def all_flags_def)

lemma tuplet_delta_kCounts:
  "kCounts st ! k = table_of k \<Longrightarrow>
   tuplet_delta k sieve sieveSize
     = sum_list (map (\<lambda>j. kCounts st ! k ! unat (sieve ! j)) [0..<unat sieveSize])"
  by (simp add: tuplet_delta_def)

lemma tuplet_delta_occurrences:
  "unat sieveSize \<le> length sieve \<Longrightarrow>
   tuplet_delta k sieve sieveSize = of_nat (occurrences k (take (unat sieveSize) sieve))"
  by (simp add: tuplet_delta_def sum_table_occurrences map_nth_upt_take)

lemma count_spec:
  assumes "length (kCounts st) = 7"
    and "\<forall>i. 1 \<le> i \<and> isCount (ps st) i \<longrightarrow> kCounts st ! i = table_of i"
    and "length (ps_counts (ps st)) = 7"
    and "unat sieveSize \<le> length sieve"
  shows "\<exists>st'. count st sieve sieveSize = Some st' \<and>
           st' = st\<lparr>ps := (ps st)\<lparr>ps_counts := ps_counts (ps st')\<rparr>\<rparr> \<and>
           length (ps_counts (ps st')) = 7 \<and>
           (\<forall>i<7. ps_counts (ps st') ! i =
              ps_counts (ps st) ! i +
              (if isCount (ps st) i then ucast (segment_delta i sieve sieveSize) else 0))"
proof -
  let ?cs = "ps_counts (ps st)"
  let ?pc = "of_nat (bit_count_ref (take (unat sieveSize) sieve)) :: uint_t"
  define st1 where "st1 = (if isFlag (ps st) COUNT_PRIMES
      then st\<lparr>ps := (ps st)\<lparr>ps_counts := ?cs[0 := ?cs ! 0 + ucast ?pc]\<rparr>\<rparr> else st)"
  have step: "count st sieve sieveSize = count_kinds [1..<7] st1 sieve sieveSize"
    using assms(3) by (simp add: count_def st1_def primeCount_of_ref [OF assms(4)] add_count_def at_def)
  have p1: "length (kCounts st1) = 7" using assms(1) by (simp add: st1_def)
  have fl: "\<And>j. isCount (ps st1) j = isCount (ps st) j" by (simp add: st1_def)
  have p2: "\<forall>j. 1 \<le> j \<and> isCount (ps st1) j \<longrightarrow> kCounts st1 ! j = table_of j"
    using assms(2) by (simp add: st1_def)
  have p3: "length (ps_counts (ps st1)) = 7" using assms(3) by (simp add: st1_def)
  have p5: "distinct [1..<7::nat]" by simp
  have p6: "set [1..<7] \<subseteq> {1..6::nat}" by auto
  from count_kinds_spec [OF p1 p2 p3 assms(4) p5 p6] obtain st' where
    a: "count_kinds [1..<7] st1 sieve sieveSize = Some st'"
    and b: "st' = st1\<lparr>ps := (ps st1)\<lparr>ps_counts := ps_counts (ps st')\<rparr>\<rparr>"
    and c: "length (ps_counts (ps st')) = 7"
    and d: "\<forall>j<7. ps_counts (ps st') ! j = ps_counts (ps st1) ! j +
            (if j \<in> set [1..<7] \<and> isCount (ps st1) j then ucast (tuplet_delta j sieve sieveSize) else 0)"
    by blast
  have b': "st' = st\<lparr>ps := (ps st)\<lparr>ps_counts := ps_counts (ps st')\<rparr>\<rparr>"
    using b by (simp add: st1_def split: if_splits)
  have d': "\<forall>j<7. ps_counts (ps st') ! j = ps_counts (ps st) ! j +
            (if isCount (ps st) j then ucast (segment_delta j sieve sieveSize) else 0)"
  proof (intro allI impI)
    fix j :: nat assume j: "j < 7"
    show "ps_counts (ps st') ! j = ps_counts (ps st) ! j +
            (if isCount (ps st) j then ucast (segment_delta j sieve sieveSize) else 0)"
    proof (cases "j = 0")
      case True
      with d j assms(3) show ?thesis
        by (simp add: st1_def segment_delta_def isCount_0)
    next
      case False
      with d j assms(3) fl show ?thesis
        by (simp add: st1_def segment_delta_def)
    qed
  qed
  from step a b' c d' show ?thesis by simp
qed

lemma isCount_isFlag2:
  assumes "1 \<le> i" and "isCount cfg i"
  shows "isFlag2 cfg COUNT_TWINS COUNT_SEPTUPLETS"
proof -
  from assms have "i = 1 \<or> i = 2 \<or> i = 3 \<or> i = 4 \<or> i = 5 \<or> i = 6"
    by (auto simp: isCount_def)
  then show ?thesis
    using assms(2)
    by (elim disjE) (simp_all add: isFlag2_def flags_between_def all_flags_def isCount_def isFlag_def)
qed

lemma ctor_spec:
  "\<exists>st. PrimeNumberFinder_ctor cfg = Some st \<and> ps st = cfg \<and>
        soe_start st = max 7 (getStart cfg) \<and> soe_stop st = getStop cfg \<and>
        soe_preSieve st = getPreSieve cfg \<and> soe_sieveSize st = getSieveSize cfg \<and>
        length (kCounts st) = 7 \<and>
        (\<forall>i<7. kCounts st ! i = (if 1 \<le> i \<and> isCount cfg i then table_of i else []))"
proof -
  define st0 where "st0 = \<lparr> soe_start = max 7 (getStart cfg), soe_stop = getStop cfg,
     soe_preSieve = getPreSieve cfg, soe_sieveSize = getSieveSize cfg, ps = cfg,
     kCounts = replicate 7 [] \<rparr>"
  have l: "length (kCounts st0) = 7" by (simp add: st0_def)
  show ?thesis
  proof (cases "isFlag2 cfg COUNT_TWINS COUNT_SEPTUPLETS")
    case True
    from initCounts_tables [OF l] obtain st' where
      a: "initCounts st0 = Some st'" and b: "st' = st0\<lparr>kCounts := kCounts st'\<rparr>"
      and c: "length (kCounts st') = 7"
      and d: "\<forall>i<7. kCounts st' ! i =
          (if 1 \<le> i \<and> isCount (ps st0) i then table_of i else kCounts st0 ! i)"
      by blast
    have e: "PrimeNumberFinder_ctor cfg = Some st'"
      using True a by (simp add: PrimeNumberFinder_ctor_def st0_def Let_def)
    have f: "ps st' = cfg" "soe_start st' = max 7 (getStart cfg)" "soe_stop st' = getStop cfg"
       "soe_preSieve st' = getPreSieve cfg" "soe_sieveSize st' = getSieveSize cfg"
      by (subst b, simp add: st0_def)+
    have g: "\<forall>i<7. kCounts st' ! i = (if 1 \<le> i \<and> isCount cfg i then table_of i else [])"
      using d by (simp add: st0_def)
    from e f c g show ?thesis by blast
  next
    case False
    then have n: "\<And>i. 1 \<le> i \<Longrightarrow> \<not> isCount cfg i" using isCount_isFlag2 by blast
    have e: "PrimeNumberFinder_ctor cfg = Some st0"
      using False by (simp add: PrimeNumberFinder_ctor_def st0_def Let_def)
    have g: "\<forall>i<7. kCounts st0 ! i = (if 1 \<le> i \<and> isCount cfg i then table_of i else [])"
      using n by (auto simp: st0_def)
    from e l g show ?thesis by (simp add: st0_def)
  qed
qed

lemma ctor_tables:
  assumes "PrimeNumberFinder_ctor cfg = Some st"
  shows "ps st = cfg" and "length (kCounts st) = 7"
    and "\<forall>i. 1 \<le> i \<and> isCount (ps st) i \<longrightarrow> kCounts st ! i = table_of i"
proof -
  from ctor_spec [of cfg] assms have a: "ps st = cfg" and b: "length (kCounts st) = 7"
    and c: "\<forall>i<7. kCounts st ! i = (if 1 \<le> i \<and> isCount cfg i then table_of i else [])"
    by auto
  show "ps st = cfg" by (rule a)
  show "length (kCounts st) = 7" by (rule b)
  show "\<forall>i. 1 \<le> i \<and> isCount (ps st) i \<longrightarrow> kCounts st ! i = table_of i"
    using c a isCount_less by auto
qed

lemma count_delta:
  assumes "PrimeNumberFinder_ctor cfg = Some st" and "length (ps_counts cfg) = 7"
    and "isCount cfg k" and "unat sieveSize \<le> length sieve"
  shows "\<exists>st'. count st sieve sieveSize = Some st' \<and>
           delta st st' k = ucast (segment_delta k sieve sieveSize)"
proof -
  note t = ctor_tables [OF assms(1)]
  from assms(2) t(1) have l: "length (ps_counts (ps st)) = 7" by simp
  from count_spec [OF t(2) t(3) l assms(4)] obtain st' where
    a: "count st sieve sieveSize = Some st'"
    and d: "\<forall>i<7. ps_counts (ps st') ! i = ps_counts (ps st) ! i +
              (if isCount (ps st) i then ucast (segment_delta i sieve sieveSize) else 0)"
    by blast
  from assms(3) have "k < 7" by (rule isCount_less)
  with d assms(3) t(1) have "delta st st' k = ucast (segment_delta k sieve sieveSize)"
    by (simp add: delta_def)
  with a show ?thesis by blast
qed

lemma popcount_ref_count: "popcount_ref bytes c = c + of_nat (bit_count_ref bytes)"
proof (induction bytes arbitrary: c)
  case Nil
  then show ?case by (simp add: bit_count_ref_def)
next
  case (Cons b bytes)
  have "\<And>xs c. fold (\<lambda>i c. if bit b i then c + 1 else c) xs (c :: uint_t)
           = c + of_nat (length (filter (bit b) xs))"
  proof -
    fix xs and c :: uint_t
    show "fold (\<lambda>i c. if bit b i then c + 1 else c) xs c = c + of_nat (length (filter (bit b) xs))"
      by (induction xs arbitrary: c) simp_all
  qed
  then show ?case
    using Cons by (simp add: bit_count_ref_def bits_of_byte_def add.assoc)
qed

section \<open>What \<open>count\<close> adds to the accumulators\<close>

lemma sieve2_bits: "bit_count_ref (take (unat (2 :: uint_t)) sieve2) = 10"
  by (simp add: sieve2_def bit_count_ref_def bits_of_byte_def upt_conv_Cons)

lemma sieve2_twins: "occurrences 1 (take (unat (2 :: uint_t)) sieve2) = 4"
  by (simp add: sieve2_def occurrences_def submask_count_def patterns_def kTupletBitmasks_def END_def)

lemma sieve2_size: "unat (2 :: uint_t) \<le> length sieve2"
  by (simp add: sieve2_def)

text \<open>
  C1: for every segment and size, the prime count that \<open>count\<close> adds to accumulator 0
  (the population count of the 64-bit words of the aligned part plus the byte-wise
  count of the remaining \<open>size mod 8\<close> bytes) is the count of a reference loop that
  visits the bits of the first \<open>size\<close> bytes one at a time. Both are \<open>uint_t\<close>
  values; they are the number of set bits itself as long as that number fits, which
  it does for every size below \<open>2 ^ 29\<close>.
\<close>

theorem count_primes_reference:
  assumes "PrimeNumberFinder_ctor cfg = Some st" and "length (ps_counts cfg) = 7"
    and "isFlag cfg COUNT_PRIMES" and "unat sieveSize \<le> length sieve"
  shows "primeCount_of sieve sieveSize = Some (popcount_ref (take (unat sieveSize) sieve) 0) \<and>
    (\<exists>st'. count st sieve sieveSize = Some st' \<and>
       delta st st' 0 = ucast (popcount_ref (take (unat sieveSize) sieve) 0) \<and>
       delta st st' 0 = ucast (of_nat (bit_count_ref (take (unat sieveSize) sieve)) :: uint_t) \<and>
       (8 * unat sieveSize < 2 ^ 32 \<longrightarrow>
          unat (delta st st' 0) = bit_count_ref (take (unat sieveSize) sieve)))"
proof -
  let ?bytes = "take (unat sieveSize) sieve"
  have r: "popcount_ref ?bytes 0 = of_nat (bit_count_ref ?bytes)"
    by (simp add: popcount_ref_count)
  from assms(3) have c0: "isCount cfg 0" by (simp add: isCount_0)
  from count_delta [OF assms(1,2) c0 assms(4)] obtain st' where
    a: "count st sieve sieveSize = Some st'"
    and d: "delta st st' 0 = ucast (of_nat (bit_count_ref ?bytes) :: uint_t)"
    by (auto simp: segment_delta_def)
  have e: "8 * unat sieveSize < 2 ^ 32 \<longrightarrow> unat (delta st st' 0) = bit_count_ref ?bytes"
  proof
    assume b: "8 * unat sieveSize < 2 ^ 32"
    have "bit_count_ref ?bytes \<le> 8 * length ?bytes" by (rule bit_count_ref_le)
    also have "\<dots> \<le> 8 * unat sieveSize" by simp
    finally have "bit_count_ref ?bytes < 2 ^ 32" using b by linarith
    then show "unat (delta st st' 0) = bit_count_ref ?bytes"
      unfolding d by (rule unat_widen)
  qed
  from a d e r primeCount_of_ref [OF assms(4)] show ?thesis by simp
qed

theorem count_primes_reference_witness:
  "\<exists>st st'. PrimeNumberFinder_ctor cfg_mixed = Some st \<and> count st sieve2 2 = Some st' \<and>
     delta st st' 0 = 10 \<and> unat (delta st st' 0) = 10"
proof -
  from ctor_spec [of cfg_mixed] obtain st where c: "PrimeNumberFinder_ctor cfg_mixed = Some st"
    by blast
  have l: "length (ps_counts cfg_mixed) = 7" by (simp add: cfg_mixed_def)
  have f: "isFlag cfg_mixed COUNT_PRIMES" by (simp add: cfg_mixed_def isFlag_def)
  from count_primes_reference [OF c l f sieve2_size] obtain st' where
    "count st sieve2 2 = Some st'"
    "delta st st' 0 = ucast (of_nat (bit_count_ref (take (unat (2 :: uint_t)) sieve2)) :: uint_t)"
    "8 * unat (2 :: uint_t) < (2 :: nat) ^ 32 \<longrightarrow>
       unat (delta st st' 0) = bit_count_ref (take (unat (2 :: uint_t)) sieve2)"
    by blast
  with c show ?thesis unfolding sieve2_bits by auto
qed

text \<open>
  C3: for every requested kind \<open>k\<close> from 1 to 6, every segment and size, what \<open>count\<close>
  adds to accumulator \<open>k\<close> is the sum of the table entries \<open>kCounts[k][sieve[j]]\<close> over
  the bytes \<open>j\<close> below the size, and that sum is the number of occurrences of the
  patterns of the kind in those bytes, each byte on its own. The sum is an \<open>uint_t\<close>;
  it is the number of occurrences itself as long as that number fits, which it does
  for every size below \<open>2 ^ 30\<close>.
\<close>

theorem count_tuplets_sum:
  assumes "PrimeNumberFinder_ctor cfg = Some st" and "length (ps_counts cfg) = 7"
    and "isCount cfg k" and "1 \<le> k" and "unat sieveSize \<le> length sieve"
  shows "\<exists>st'. count st sieve sieveSize = Some st' \<and>
       delta st st' k =
         ucast (sum_list (map (\<lambda>j. kCounts st ! k ! unat (sieve ! j)) [0..<unat sieveSize])) \<and>
       delta st st' k = ucast (of_nat (occurrences k (take (unat sieveSize) sieve)) :: uint_t) \<and>
       (4 * unat sieveSize < 2 ^ 32 \<longrightarrow>
          unat (delta st st' k) = occurrences k (take (unat sieveSize) sieve))"
proof -
  let ?bytes = "take (unat sieveSize) sieve"
  note t = ctor_tables [OF assms(1)]
  from assms(3) have k7: "k < 7" by (rule isCount_less)
  with assms(4) have k: "k \<in> {1..6}" by auto
  from t(1,3) assms(3,4) have tk: "kCounts st ! k = table_of k" by simp
  from assms(4) have k0: "k \<noteq> 0" by simp
  from count_delta [OF assms(1,2,3,5)] k0 obtain st' where
    a: "count st sieve sieveSize = Some st'"
    and d: "delta st st' k = ucast (tuplet_delta k sieve sieveSize)"
    by (auto simp: segment_delta_def)
  have d1: "delta st st' k =
         ucast (sum_list (map (\<lambda>j. kCounts st ! k ! unat (sieve ! j)) [0..<unat sieveSize]))"
    unfolding d by (simp only: tuplet_delta_kCounts [OF tk])
  have d2: "delta st st' k = ucast (of_nat (occurrences k ?bytes) :: uint_t)"
    unfolding d by (simp only: tuplet_delta_occurrences [OF assms(5)])
  have e: "4 * unat sieveSize < 2 ^ 32 \<longrightarrow> unat (delta st st' k) = occurrences k ?bytes"
  proof
    assume b: "4 * unat sieveSize < 2 ^ 32"
    have "occurrences k ?bytes \<le> 4 * length ?bytes" by (rule occurrences_le [OF k])
    also have "\<dots> \<le> 4 * unat sieveSize" by simp
    finally have "occurrences k ?bytes < 2 ^ 32" using b by linarith
    then show "unat (delta st st' k) = occurrences k ?bytes"
      unfolding d2 by (rule unat_widen)
  qed
  from a d1 d2 e show ?thesis by blast
qed

theorem count_tuplets_sum_witness:
  "\<exists>st st'. PrimeNumberFinder_ctor cfg_twins = Some st \<and> count st sieve2 2 = Some st' \<and>
     delta st st' 1 = 4 \<and> unat (delta st st' 1) = 4"
proof -
  from ctor_spec [of cfg_twins] obtain st where c: "PrimeNumberFinder_ctor cfg_twins = Some st"
    by blast
  have l: "length (ps_counts cfg_twins) = 7" by (simp add: cfg_twins_def)
  have f: "isCount cfg_twins 1" by (simp add: cfg_twins_def isCount_def isFlag_def all_flags_def)
  have o: "(1::nat) \<le> 1" by simp
  from count_tuplets_sum [OF c l f o sieve2_size] obtain st' where
    "count st sieve2 2 = Some st'"
    "delta st st' 1 = ucast (of_nat (occurrences 1 (take (unat (2 :: uint_t)) sieve2)) :: uint_t)"
    "4 * unat (2 :: uint_t) < (2 :: nat) ^ 32 \<longrightarrow>
       unat (delta st st' 1) = occurrences 1 (take (unat (2 :: uint_t)) sieve2)"
    by blast
  with c show ?thesis unfolding sieve2_twins by auto
qed

text \<open>
  C8: for every segment and size, what \<open>count\<close> adds to the accumulator of an enabled
  kind does not depend on which other kinds are enabled: two runs whose
  configurations both enable the kind, one of them possibly enabling nothing else,
  add the same amount for it.
\<close>

theorem count_kinds_do_not_interfere:
  assumes "PrimeNumberFinder_ctor cfgA = Some stA" and "PrimeNumberFinder_ctor cfgB = Some stB"
    and "length (ps_counts cfgA) = 7" and "length (ps_counts cfgB) = 7"
    and "isCount cfgA k" and "isCount cfgB k" and "unat sieveSize \<le> length sieve"
  shows "\<exists>stA' stB'. count stA sieve sieveSize = Some stA' \<and>
           count stB sieve sieveSize = Some stB' \<and>
           delta stA stA' k = delta stB stB' k"
proof -
  from count_delta [OF assms(1,3,5,7)] obtain stA' where
    a: "count stA sieve sieveSize = Some stA'"
       "delta stA stA' k = ucast (segment_delta k sieve sieveSize)"
    by blast
  from count_delta [OF assms(2,4,6,7)] obtain stB' where
    b: "count stB sieve sieveSize = Some stB'"
       "delta stB stB' k = ucast (segment_delta k sieve sieveSize)"
    by blast
  from a b show ?thesis by simp
qed

theorem count_kinds_do_not_interfere_witness:
  "ps_flags cfg_twins = {all_flags ! 1} \<and>
   (\<exists>stA stB stA' stB'. PrimeNumberFinder_ctor cfg_mixed = Some stA \<and>
      PrimeNumberFinder_ctor cfg_twins = Some stB \<and>
      count stA sieve2 2 = Some stA' \<and> count stB sieve2 2 = Some stB' \<and>
      delta stA stA' 1 = delta stB stB' 1)"
proof -
  from ctor_spec [of cfg_mixed] obtain stA where a: "PrimeNumberFinder_ctor cfg_mixed = Some stA"
    by blast
  from ctor_spec [of cfg_twins] obtain stB where b: "PrimeNumberFinder_ctor cfg_twins = Some stB"
    by blast
  have la: "length (ps_counts cfg_mixed) = 7" by (simp add: cfg_mixed_def)
  have lb: "length (ps_counts cfg_twins) = 7" by (simp add: cfg_twins_def)
  have fa: "isCount cfg_mixed 1" by (simp add: cfg_mixed_def isCount_def isFlag_def all_flags_def)
  have fb: "isCount cfg_twins 1" by (simp add: cfg_twins_def isCount_def isFlag_def all_flags_def)
  have o: "ps_flags cfg_twins = {all_flags ! 1}" by (simp add: cfg_twins_def all_flags_def)
  from count_kinds_do_not_interfere [OF a b la lb fa fb sieve2_size] a b o
  show ?thesis by blast
qed

section \<open>The tuplet printing mode of \<open>generate\<close>\<close>

lemma getNextPrime_step:
  assumes "bits \<noteq> 0"
  shows "\<exists>l. set_bits bits = l # set_bits (bits AND (bits - 1)) \<and>
             getNextPrime w j bits = Some (w j l, bits AND (bits - 1))"
proof -
  from set_bits_step [OF assms] obtain l where
    "find (bit bits) [0..<LENGTH(32)] = Some l" "set_bits bits = l # set_bits (bits AND (bits - 1))"
    by blast
  then show ?thesis by (simp add: getNextPrime_def)
qed

lemma set_bits_0 [simp]: "set_bits 0 = []"
  by (simp add: set_bits_def)

lemma set_bits_nonempty: "bits \<noteq> 0 \<Longrightarrow> set_bits bits \<noteq> []"
  using set_bits_step [of bits] by auto

lemma kTuplet_loop_text:
  "bits \<noteq> 0 \<Longrightarrow>
   kTuplet_loop w j bits kTuplet
     = Some (kTuplet @ join_values (group_values w j bits) @ '')\<newline>'')"
proof (induction w j bits kTuplet rule: kTuplet_loop.induct)
  case (1 w j bits kTuplet)
  from getNextPrime_step [OF "1.prems"] obtain l where
    s: "set_bits bits = l # set_bits (bits AND (bits - 1))"
    and g: "getNextPrime w j bits = Some (w j l, bits AND (bits - 1))"
    by blast
  let ?bits' = "bits AND (bits - 1)"
  show ?case
  proof (cases "?bits' = 0")
    case True
    then have "kTuplet_loop w j bits kTuplet = Some (kTuplet @ dec (unat (w j l)) @ '')\<newline>'')"
      using "1.prems" g
      by (subst kTuplet_loop.simps) (simp add: kTuplet_loop.simps [of w j 0])
    then show ?thesis using True s by (simp add: group_values_def)
  next
    case False
    from set_bits_nonempty [OF False] obtain l' ls where n: "set_bits ?bits' = l' # ls"
      by (cases "set_bits ?bits'") auto
    have "kTuplet_loop w j bits kTuplet
        = kTuplet_loop w j ?bits' (kTuplet @ dec (unat (w j l)) @ '', '')"
      using "1.prems" g False by (subst kTuplet_loop.simps) simp
    also have "\<dots> = Some ((kTuplet @ dec (unat (w j l)) @ '', '')
                        @ join_values (group_values w j ?bits') @ '')\<newline>'')"
      using "1.IH" [OF "1.prems" g refl False] False by simp
    finally show ?thesis using s n by (simp add: group_values_def)
  qed
qed

lemma bitmask_print_sorted:
  "sorted (pats @ [e]) \<Longrightarrow> byte < e \<Longrightarrow> 0 \<notin> set pats \<Longrightarrow>
   bitmask_print w (pats @ e # rest) j byte
     = Some (map (\<lambda>p. Cout (record_text (group_values w j p)))
                 (filter (\<lambda>p. byte AND p = p) pats))"
proof (induction pats)
  case Nil
  then show ?case by (auto dest: leD)
next
  case (Cons p pats)
  from Cons.prems have p0: "p \<noteq> 0" by auto
  show ?case
  proof (cases "p \<le> byte")
    case True
    with Cons p0 show ?thesis
      by (simp add: kTuplet_loop_text record_text_def)
  next
    case False
    have "\<forall>q \<in> set (p # pats). \<not> (byte AND q = q)"
    proof
      fix q assume "q \<in> set (p # pats)"
      with Cons.prems have "p \<le> q" by auto
      with False have "\<not> q \<le> byte" by simp
      then show "\<not> (byte AND q = q)" using and_eq_le by blast
    qed
    then have "filter (\<lambda>p. byte AND p = p) (p # pats) = []" by (simp add: filter_empty_conv)
    with False show ?thesis by simp
  qed
qed

lemma ucast_byte_less_END: "(ucast (b :: uint8_t) :: uint_t) < END"
proof -
  have "unat (ucast b :: uint_t) = unat b"
    by (simp add: unsigned_ucast_eq take_bit_nat_eq_self unat_byte_less [THEN less_trans])
  then show ?thesis
    using unat_byte_less [of b] by (simp add: END_def word_less_nat_alt)
qed

lemma bitmask_print_row:
  assumes "k \<in> {1..6}"
  shows "bitmask_print w (kTupletBitmasks ! k) j (ucast (b :: uint8_t)) = Some (byte_records k w j b)"
proof -
  from row_split [OF assms] obtain rest where
    r: "kTupletBitmasks ! k = patterns k @ END # rest" and s: "sorted (patterns k @ [END])"
    by blast
  show ?thesis
    unfolding r byte_records_def
    by (rule bitmask_print_sorted [OF s ucast_byte_less_END patterns_nonzero [OF assms]])
qed

lemma print_tuplets_records:
  "k \<in> {1..6} \<Longrightarrow> \<forall>j\<in>set js. j < length sieve \<Longrightarrow>
   print_tuplets w (kTupletBitmasks ! k) sieve js
     = Some (concat (map (\<lambda>j. byte_records k w j (sieve ! j)) js))"
  by (induction js) (simp_all add: at_def bitmask_print_row)

lemma find_print_least:
  "isPrint cfg i \<Longrightarrow> s \<le> i \<Longrightarrow> (\<And>m. s \<le> m \<Longrightarrow> m < i \<Longrightarrow> \<not> isPrint cfg m) \<Longrightarrow>
   find_print cfg s = Some i"
proof (induction "i - s" arbitrary: s)
  case 0
  then have "s = i" by simp
  with 0 show ?case by (subst find_print.simps) simp
next
  case (Suc d)
  then have "s < i" by simp
  with Suc.prems have n: "\<not> isPrint cfg s" by simp
  have "find_print cfg (s + 1) = Some i"
  proof (rule Suc.hyps(1))
    show "d = i - (s + 1)" using Suc.hyps(2) by simp
    show "isPrint cfg i" by (rule Suc.prems(1))
    show "s + 1 \<le> i" using \<open>s < i\<close> by simp
    show "\<And>m. s + 1 \<le> m \<Longrightarrow> m < i \<Longrightarrow> \<not> isPrint cfg m" using Suc.prems(3) by simp
  qed
  with n show ?case by (subst find_print.simps) simp
qed

lemma isFlag2_print:
  "isFlag2 cfg PRINT_TWINS PRINT_SEPTUPLETS \<longleftrightarrow> (\<exists>i\<in>{1..6}. isPrint cfg i)"
proof
  assume "isFlag2 cfg PRINT_TWINS PRINT_SEPTUPLETS"
  then have "isPrint cfg 1 \<or> isPrint cfg 2 \<or> isPrint cfg 3 \<or> isPrint cfg 4
      \<or> isPrint cfg 5 \<or> isPrint cfg 6"
    by (auto simp: isFlag2_def flags_between_def all_flags_def isPrint_def isFlag_def)
  then show "\<exists>i\<in>{1..6}. isPrint cfg i" by auto
next
  assume "\<exists>i\<in>{1..6}. isPrint cfg i"
  then obtain i where "i \<in> {1..6}" "isPrint cfg i" by blast
  then have "i = 1 \<or> i = 2 \<or> i = 3 \<or> i = 4 \<or> i = 5 \<or> i = 6" by auto
  then show "isFlag2 cfg PRINT_TWINS PRINT_SEPTUPLETS"
    using \<open>isPrint cfg i\<close>
    by (elim disjE) (simp_all add: isFlag2_def flags_between_def all_flags_def isPrint_def isFlag_def)
qed

lemma find_print_total:
  assumes "isFlag2 cfg PRINT_TWINS PRINT_SEPTUPLETS"
  shows "\<exists>k. 1 \<le> k \<and> k \<le> 6 \<and> isPrint cfg k \<and> (\<forall>i. 1 \<le> i \<and> i < k \<longrightarrow> \<not> isPrint cfg i) \<and>
             find_print cfg 1 = Some k"
proof -
  from assms obtain i0 where i0: "i0 \<in> {1..6}" "isPrint cfg i0"
    by (auto simp: isFlag2_print)
  define P where "P i \<longleftrightarrow> 1 \<le> i \<and> isPrint cfg i" for i
  define k where "k = (LEAST i. P i)"
  have "P i0" using i0 by (simp add: P_def)
  then have pk: "P k" unfolding k_def by (rule LeastI)
  have le: "k \<le> i0" unfolding k_def using \<open>P i0\<close> by (rule Least_le)
  have mn: "\<And>m. m < k \<Longrightarrow> \<not> P m" unfolding k_def by (rule not_less_Least)
  have "find_print cfg 1 = Some k"
    using pk mn by (intro find_print_least) (auto simp: P_def)
  with pk mn le i0 show ?thesis by (auto simp: P_def)
qed

lemma generate_tuplets:
  assumes "isFlag2 (ps st) PRINT_TWINS PRINT_SEPTUPLETS" and "unat sieveSize \<le> length sieve"
  shows "\<exists>k. 1 \<le> k \<and> k \<le> 6 \<and> isPrint (ps st) k \<and>
             (\<forall>i. 1 \<le> i \<and> i < k \<longrightarrow> \<not> isPrint (ps st) i) \<and>
             generate st w sieve sieveSize = Some (tuplet_records k w sieve (unat sieveSize))"
proof -
  from find_print_total [OF assms(1)] obtain k where
    k: "1 \<le> k" "k \<le> 6" "isPrint (ps st) k" "\<forall>i. 1 \<le> i \<and> i < k \<longrightarrow> \<not> isPrint (ps st) i"
    and f: "find_print (ps st) 1 = Some k"
    by blast
  from k have kk: "k \<in> {1..6}" by simp
  have a: "at kTupletBitmasks k = Some (kTupletBitmasks ! k)"
    using k by (simp add: at_def kTupletBitmasks_def)
  have "generate st w sieve sieveSize = Some (tuplet_records k w sieve (unat sieveSize))"
    using assms f a
    by (simp add: generate_def tuplet_records_def print_tuplets_records [OF kk])
  with k show ?thesis by blast
qed

section \<open>The single-value mode of \<open>generate\<close> and the records\<close>

lemma bits_loop_values:
  "bits_loop callback w j bits = Some (concat (map callback (group_values w j bits)))"
proof (induction callback w j bits rule: bits_loop.induct)
  case (1 callback w j bits)
  show ?case
  proof (cases "bits = 0")
    case True
    then show ?thesis by (subst bits_loop.simps) (simp add: group_values_def)
  next
    case False
    from getNextPrime_step [OF False] obtain l where
      s: "set_bits bits = l # set_bits (bits AND (bits - 1))"
      and g: "getNextPrime w j bits = Some (w j l, bits AND (bits - 1))"
      by blast
    from "1.IH" [OF False g refl] False g s show ?thesis
      by (subst bits_loop.simps) (simp add: group_values_def)
  qed
qed

lemma GENERATE_PRIMES_values:
  "\<forall>j\<in>set js. j < length sieve \<Longrightarrow>
   GENERATE_PRIMES callback w sieve js
     = Some (concat (map callback (concat (map (\<lambda>j. map (w j) (set_bits (sieve ! j))) js))))"
  by (induction js)
     (simp_all add: at_def bits_loop_values group_values_def set_bits_ucast_byte)

lemma generate_if_values:
  "unat sieveSize \<le> length sieve \<Longrightarrow>
   generate_if cfg f callback w sieve sieveSize
     = Some (if isFlag cfg f then concat (map callback (primes_of w sieve (unat sieveSize))) else [])"
  by (simp add: generate_if_def GENERATE_PRIMES_values primes_of_def)

lemma generate_primes:
  assumes "\<not> isFlag2 (ps st) PRINT_TWINS PRINT_SEPTUPLETS" and "unat sieveSize \<le> length sieve"
  shows "generate st w sieve sieveSize
     = Some (LockAcquire # prime_deliveries (ps st) (primes_of w sieve (unat sieveSize)) @ [LockRelease])"
  using assms(1)
  by (simp add: generate_def generate_if_values [OF assms(2)] prime_deliveries_def)

lemma prime_deliveries_are_deliveries:
  "e \<in> set (prime_deliveries cfg primes) \<Longrightarrow> is_delivery e \<and> \<not> is_lock e \<and> \<not> is_status e"
  by (auto simp: prime_deliveries_def callback32_def callback64_def callback32_OOP_def
      callback64_OOP_def print_def split: if_splits)

lemma tuplet_records_are_deliveries:
  "e \<in> set (tuplet_records k w sieve n) \<Longrightarrow> is_delivery e \<and> \<not> is_lock e \<and> \<not> is_status e"
  by (auto simp: tuplet_records_def byte_records_def)

lemma lock_discipline_deliveries:
  "\<forall>e\<in>set es. is_delivery e \<Longrightarrow> lock_discipline True (es @ rest) = lock_discipline True rest"
proof (induction es)
  case Nil
  then show ?case by simp
next
  case (Cons e es)
  then show ?case by (cases e) simp_all
qed

lemma lock_discipline_unlocked:
  "\<forall>e\<in>set es. is_delivery e \<Longrightarrow> lock_discipline False es \<longleftrightarrow> es = []"
proof (cases es)
  case Nil
  then show ?thesis by simp
next
  case (Cons e es')
  assume "\<forall>e\<in>set es. is_delivery e"
  with Cons have "is_delivery e" by simp
  with Cons show ?thesis by (cases e) simp_all
qed

lemma patterns_are_bytes:
  assumes "k \<in> {1..6}" and "p \<in> set (patterns k)"
  shows "ucast (ucast p :: uint8_t) = p"
proof -
  from assms(1) have "k = 1 \<or> k = 2 \<or> k = 3 \<or> k = 4 \<or> k = 5 \<or> k = 6" by auto
  then show ?thesis
    using assms(2)
    by (elim disjE) (auto simp: patterns_def kTupletBitmasks_def END_def)
qed

lemma set_bits_pattern:
  assumes "k \<in> {1..6}" and "p \<in> set (patterns k)"
  shows "set_bits p = filter (bit (ucast p :: uint8_t)) [0..<8]"
proof -
  have "set_bits p = set_bits (ucast (ucast p :: uint8_t) :: uint_t)"
    by (simp only: patterns_are_bytes [OF assms])
  also have "\<dots> = set_bits (ucast p :: uint8_t)" by (rule set_bits_ucast_byte)
  finally show ?thesis by (simp add: set_bits_def)
qed

lemma group_values_ascending:
  assumes "k \<in> {1..6}" and "p \<in> set (patterns k)"
    and "\<forall>b1 b2. b1 < b2 \<and> b2 < 8 \<longrightarrow> w j b1 < w j b2"
  shows "group_values w j p \<noteq> [] \<and> sorted_wrt (<) (group_values w j p)"
proof -
  let ?bs = "filter (bit (ucast p :: uint8_t)) [0..<8]"
  have s: "set_bits p = ?bs" by (rule set_bits_pattern [OF assms(1,2)])
  from assms(1,2) have "p \<noteq> 0" using patterns_nonzero by metis
  then have ne: "set_bits p \<noteq> []" by (rule set_bits_nonempty)
  have "sorted_wrt (<) ?bs" by (rule sorted_wrt_filter) simp
  then have "sorted_wrt (\<lambda>x y. w j x < w j y) ?bs"
  proof (rule sorted_wrt_mono_rel [rotated])
    fix x y assume "x \<in> set ?bs" "y \<in> set ?bs" "x < y"
    then have "x < y \<and> y < 8" by simp
    with assms(3) show "w j x < w j y" by blast
  qed
  then have "sorted_wrt (<) (map (w j) ?bs)" by (simp add: sorted_wrt_map)
  with ne s show ?thesis by (simp add: group_values_def)
qed

text \<open>
  C5: in the tuplet printing mode the kind printed is the first one requested, and
  \<open>generate\<close> writes one record for every byte of the segment and every pattern of
  that kind contained in the byte, the bytes in segment order. A record is the text
  \<open>(v1, v2, ..., vn)\<close> followed by a newline, with no comma after the last value;
  its values are the numbers of the bits of the pattern and, the wheel mapping being
  increasing in the bit position, they ascend.
\<close>

theorem generate_tuplet_records:
  assumes "isFlag2 (ps st) PRINT_TWINS PRINT_SEPTUPLETS" and "unat sieveSize \<le> length sieve"
    and "\<forall>j<unat sieveSize. \<forall>b1 b2. b1 < b2 \<and> b2 < 8 \<longrightarrow> w j b1 < w j b2"
  shows "\<exists>k. 1 \<le> k \<and> k \<le> 6 \<and> isPrint (ps st) k \<and>
           (\<forall>i. 1 \<le> i \<and> i < k \<longrightarrow> \<not> isPrint (ps st) i) \<and>
           generate st w sieve sieveSize = Some (tuplet_records k w sieve (unat sieveSize)) \<and>
           (\<forall>j<unat sieveSize. \<forall>p\<in>set (patterns k).
              group_values w j p \<noteq> [] \<and> sorted_wrt (<) (group_values w j p))"
proof -
  from generate_tuplets [OF assms(1,2)] obtain k where
    k: "1 \<le> k" "k \<le> 6" "isPrint (ps st) k" "\<forall>i. 1 \<le> i \<and> i < k \<longrightarrow> \<not> isPrint (ps st) i"
    and g: "generate st w sieve sieveSize = Some (tuplet_records k w sieve (unat sieveSize))"
    by blast
  from k have kk: "k \<in> {1..6}" by simp
  have "\<forall>j<unat sieveSize. \<forall>p\<in>set (patterns k).
          group_values w j p \<noteq> [] \<and> sorted_wrt (<) (group_values w j p)"
    using group_values_ascending [OF kk] assms(3) by blast
  with k g show ?thesis by blast
qed

lemma wheel30_mono:
  assumes "30 * j + 31 < 2 ^ 64" and "b1 < b2" and "b2 < 8"
  shows "wheel30 j b1 < wheel30 j b2"
proof -
  let ?vals = "[7, 11, 13, 17, 19, 23, 29, 31] :: nat list"
  have s: "sorted_wrt (<) ?vals" by simp
  have l: "b2 < length ?vals" using assms(3) by simp
  from sorted_wrt_nth_less [OF s assms(2) l] have lt: "?vals ! b1 < ?vals ! b2" .
  have "?vals ! b2 \<in> set ?vals" using l by (rule nth_mem)
  then have le: "?vals ! b2 \<le> 31" by auto
  from lt le assms(1) have a: "30 * j + ?vals ! b1 < 2 ^ 64" and b: "30 * j + ?vals ! b2 < 2 ^ 64"
    by linarith+
  have ta: "take_bit 64 (30 * j + ?vals ! b1) = 30 * j + ?vals ! b1"
    using a by (rule take_bit_nat_eq_self)
  have tb: "take_bit 64 (30 * j + ?vals ! b2) = 30 * j + ?vals ! b2"
    using b by (rule take_bit_nat_eq_self)
  show ?thesis
    unfolding wheel30_def word_of_nat_less_iff using lt by (simp add: ta tb)
qed

lemma finder_print_twins: "isFlag2 (ps (finder {PRINT_TWINS})) PRINT_TWINS PRINT_SEPTUPLETS"
  by (simp add: finder_def isFlag2_def flags_between_def all_flags_def)

theorem generate_tuplet_records_witness:
  "\<exists>k. 1 \<le> k \<and> k \<le> 6 \<and> isPrint (ps (finder {PRINT_TWINS})) k \<and>
       (\<forall>i. 1 \<le> i \<and> i < k \<longrightarrow> \<not> isPrint (ps (finder {PRINT_TWINS})) i) \<and>
       generate (finder {PRINT_TWINS}) wheel30 sieve2 2
         = Some (tuplet_records k wheel30 sieve2 (unat (2 :: uint_t))) \<and>
       (\<forall>j<unat (2 :: uint_t). \<forall>p\<in>set (patterns k).
          group_values wheel30 j p \<noteq> [] \<and> sorted_wrt (<) (group_values wheel30 j p))"
proof -
  have m: "\<forall>j<unat (2 :: uint_t). \<forall>b1 b2. b1 < b2 \<and> b2 < 8 \<longrightarrow> wheel30 j b1 < wheel30 j b2"
    by (auto intro!: wheel30_mono)
  show ?thesis
    by (rule generate_tuplet_records [OF finder_print_twins sieve2_size m])
qed

section \<open>The lock and the empty segment\<close>

lemma generate_spec:
  assumes "unat sieveSize \<le> length sieve"
  shows "\<exists>out. generate st w sieve sieveSize = Some out \<and>
     (if isFlag2 (ps st) PRINT_TWINS PRINT_SEPTUPLETS
      then (\<exists>k. 1 \<le> k \<and> k \<le> 6 \<and> out = tuplet_records k w sieve (unat sieveSize))
      else out = LockAcquire #
                 prime_deliveries (ps st) (primes_of w sieve (unat sieveSize)) @ [LockRelease])"
proof (cases "isFlag2 (ps st) PRINT_TWINS PRINT_SEPTUPLETS")
  case True
  from generate_tuplets [OF True assms, of w] obtain k where
    "1 \<le> k" "k \<le> 6" "generate st w sieve sieveSize = Some (tuplet_records k w sieve (unat sieveSize))"
    by blast
  with True show ?thesis by auto
next
  case False
  from generate_primes [OF False assms, of w] False show ?thesis by simp
qed

lemma tuplet_records_0 [simp]: "tuplet_records k w sieve 0 = []"
  by (simp add: tuplet_records_def)

lemma primes_of_0 [simp]: "primes_of w sieve 0 = []"
  by (simp add: primes_of_def)

lemma prime_deliveries_Nil [simp]: "prime_deliveries cfg [] = []"
  by (simp add: prime_deliveries_def)

lemma find_print_1: "find_print (ps (finder {PRINT_TWINS})) 1 = Some 1"
  by (subst find_print.simps) (simp add: finder_def isPrint_def isFlag_def all_flags_def)

lemma tuplet_records_sieve2:
  "tuplet_records 1 wheel30 sieve2 2 =
     [Cout ''(11, 13)\<newline>'', Cout ''(41, 43)\<newline>'', Cout ''(47, 49)\<newline>'', Cout ''(59, 61)\<newline>'']"
  by (simp add: tuplet_records_def byte_records_def patterns_def kTupletBitmasks_def END_def
      sieve2_def group_values_def set_bits_def record_text_def wheel30_def dec.simps
      upt_conv_Cons)

lemma ctor_finder:
  "\<not> isFlag2 (ps (finder fs)) COUNT_TWINS COUNT_SEPTUPLETS \<Longrightarrow>
   PrimeNumberFinder_ctor (ps (finder fs)) = Some (finder fs)"
  by (simp add: PrimeNumberFinder_ctor_def finder_def Let_def getStart_def getStop_def
      getPreSieve_def getSieveSize_def)

text \<open>
  C4, as it is stated, fails in the tuplet printing mode: a processor asked to print
  twins writes its four records for the segment \<open>sieve2\<close> without taking the lock.
\<close>

theorem generate_lock_counterexample:
  "PrimeNumberFinder_ctor (ps (finder {PRINT_TWINS})) = Some (finder {PRINT_TWINS}) \<and>
   generate (finder {PRINT_TWINS}) wheel30 sieve2 2 =
     Some [Cout ''(11, 13)\<newline>'', Cout ''(41, 43)\<newline>'', Cout ''(47, 49)\<newline>'', Cout ''(59, 61)\<newline>''] \<and>
   \<not> lock_discipline False
     [Cout ''(11, 13)\<newline>'', Cout ''(41, 43)\<newline>'', Cout ''(47, 49)\<newline>'', Cout ''(59, 61)\<newline>'']"
proof -
  have c: "PrimeNumberFinder_ctor (ps (finder {PRINT_TWINS})) = Some (finder {PRINT_TWINS})"
    by (rule ctor_finder) (simp add: finder_def isFlag2_def flags_between_def all_flags_def)
  have k: "(1::nat) \<in> {1..6}" by simp
  have b: "\<forall>j\<in>set [0..<unat (2 :: uint_t)]. j < length sieve2" by (simp add: sieve2_def)
  have g: "generate (finder {PRINT_TWINS}) wheel30 sieve2 2
      = Some (tuplet_records 1 wheel30 sieve2 2)"
    using finder_print_twins find_print_1 print_tuplets_records [OF k b, of wheel30]
    by (simp add: generate_def at_def kTupletBitmasks_def tuplet_records_def)
  have n: "\<not> lock_discipline False
     [Cout ''(11, 13)\<newline>'', Cout ''(41, 43)\<newline>'', Cout ''(47, 49)\<newline>'', Cout ''(59, 61)\<newline>'']"
    by simp
  from c g n show ?thesis unfolding tuplet_records_sieve2 by blast
qed

text \<open>
  C4, amended: \<open>generate\<close> takes the lock only in the single-value mode. There it
  takes the lock first and releases it last, and everything it hands to a callback
  or to the console lies in between. In the tuplet printing mode it neither takes
  nor releases the lock; every record is a single insertion into the console.
\<close>

theorem generate_lock_discipline:
  assumes "unat sieveSize \<le> length sieve"
  shows "\<exists>out. generate st w sieve sieveSize = Some out \<and>
     (if isFlag2 (ps st) PRINT_TWINS PRINT_SEPTUPLETS
      then \<not> list_ex is_lock out \<and> list_all is_delivery out
      else (\<exists>body. out = LockAcquire # body @ [LockRelease] \<and>
                   \<not> list_ex is_lock body \<and> list_all is_delivery body \<and>
                   lock_discipline False out))"
proof -
  from generate_spec [OF assms, of st w] obtain out where
    g: "generate st w sieve sieveSize = Some out"
    and o: "if isFlag2 (ps st) PRINT_TWINS PRINT_SEPTUPLETS
      then (\<exists>k. 1 \<le> k \<and> k \<le> 6 \<and> out = tuplet_records k w sieve (unat sieveSize))
      else out = LockAcquire #
                 prime_deliveries (ps st) (primes_of w sieve (unat sieveSize)) @ [LockRelease]"
    by blast
  show ?thesis
  proof (cases "isFlag2 (ps st) PRINT_TWINS PRINT_SEPTUPLETS")
    case True
    with o obtain k where "out = tuplet_records k w sieve (unat sieveSize)" by auto
    then have "\<not> list_ex is_lock out \<and> list_all is_delivery out"
      using tuplet_records_are_deliveries by (auto simp: list_ex_iff list_all_iff)
    with g True show ?thesis by auto
  next
    case False
    let ?body = "prime_deliveries (ps st) (primes_of w sieve (unat sieveSize))"
    from False o have out: "out = LockAcquire # ?body @ [LockRelease]" by simp
    have d: "\<forall>e\<in>set ?body. is_delivery e" using prime_deliveries_are_deliveries by blast
    have b: "\<not> list_ex is_lock ?body \<and> list_all is_delivery ?body"
      using prime_deliveries_are_deliveries by (auto simp: list_ex_iff list_all_iff)
    have "lock_discipline False out"
      unfolding out using lock_discipline_deliveries [OF d, of "[LockRelease]"] by simp
    with g False out b show ?thesis by auto
  qed
qed

theorem generate_lock_discipline_witness:
  "\<exists>out. generate (finder {PRINT_PRIMES}) wheel30 sieve2 2 = Some out \<and>
     (if isFlag2 (ps (finder {PRINT_PRIMES})) PRINT_TWINS PRINT_SEPTUPLETS
      then \<not> list_ex is_lock out \<and> list_all is_delivery out
      else (\<exists>body. out = LockAcquire # body @ [LockRelease] \<and>
                   \<not> list_ex is_lock body \<and> list_all is_delivery body \<and>
                   lock_discipline False out))"
  by (rule generate_lock_discipline [OF sieve2_size])

lemma segment_delta_0: "i < 7 \<Longrightarrow> segment_delta i sieve 0 = 0"
  by (simp add: segment_delta_def tuplet_delta_def bit_count_ref_def)

lemma count_empty:
  assumes "PrimeNumberFinder_ctor cfg = Some st" and "length (ps_counts cfg) = 7"
  shows "count st sieve 0 = Some st"
proof -
  note t = ctor_tables [OF assms(1)]
  from assms(2) t(1) have l: "length (ps_counts (ps st)) = 7" by simp
  have z: "unat (0 :: uint_t) \<le> length sieve" by simp
  from count_spec [OF t(2) t(3) l z] obtain st' where
    a: "count st sieve 0 = Some st'"
    and b: "st' = st\<lparr>ps := (ps st)\<lparr>ps_counts := ps_counts (ps st')\<rparr>\<rparr>"
    and c: "length (ps_counts (ps st')) = 7"
    and d: "\<forall>i<7. ps_counts (ps st') ! i = ps_counts (ps st) ! i +
              (if isCount (ps st) i then ucast (segment_delta i sieve 0) else 0)"
    by blast
  from d have "\<forall>i<7. ps_counts (ps st') ! i = ps_counts (ps st) ! i"
    by (simp add: segment_delta_0)
  with c l have "ps_counts (ps st') = ps_counts (ps st)"
    by (simp add: list_eq_iff_nth_eq)
  with b have "st' = st" by simp
  with a show ?thesis by simp
qed

text \<open>
  C9: for a segment of size 0, \<open>count\<close> returns and leaves every accumulator as it
  was, and \<open>generate\<close> returns and hands nothing to any sink.
\<close>

theorem empty_segment:
  assumes "PrimeNumberFinder_ctor cfg = Some st" and "length (ps_counts cfg) = 7"
  shows "count st sieve 0 = Some st \<and> (\<forall>k<7. delta st st k = 0) \<and>
         (\<exists>out. generate st w sieve 0 = Some out \<and> filter is_delivery out = [])"
proof -
  have z: "unat (0 :: uint_t) \<le> length sieve" by simp
  from generate_spec [OF z, of st w] obtain out where
    g: "generate st w sieve 0 = Some out"
    and o: "if isFlag2 (ps st) PRINT_TWINS PRINT_SEPTUPLETS
      then (\<exists>k. 1 \<le> k \<and> k \<le> 6 \<and> out = tuplet_records k w sieve (unat (0 :: uint_t)))
      else out = LockAcquire #
                 prime_deliveries (ps st) (primes_of w sieve (unat (0 :: uint_t))) @ [LockRelease]"
    by blast
  from o have "filter is_delivery out = []" by (auto split: if_splits)
  with g count_empty [OF assms] show ?thesis by (simp add: delta_def)
qed

theorem empty_segment_witness:
  "\<exists>st. PrimeNumberFinder_ctor cfg_mixed = Some st \<and> count st sieve2 0 = Some st \<and>
      (\<forall>k<7. delta st st k = 0) \<and>
      (\<exists>out. generate st wheel30 sieve2 0 = Some out \<and> filter is_delivery out = [])"
proof -
  from ctor_spec [of cfg_mixed] obtain st where c: "PrimeNumberFinder_ctor cfg_mixed = Some st"
    by blast
  have l: "length (ps_counts cfg_mixed) = 7" by (simp add: cfg_mixed_def)
  from empty_segment [OF c l, of sieve2 wheel30] c show ?thesis by blast
qed

section \<open>\<open>segmentProcessed\<close>\<close>

lemma isFlag2_counts_update [simp]: "isFlag2 (cfg\<lparr>ps_counts := cs\<rparr>) lo hi = isFlag2 cfg lo hi"
  by (simp add: isFlag2_def)

lemma count_total:
  assumes "PrimeNumberFinder_ctor cfg = Some st" and "length (ps_counts cfg) = 7"
    and "unat sieveSize \<le> length sieve"
  shows "\<exists>st'. count st sieve sieveSize = Some st' \<and> ps_flags (ps st') = ps_flags cfg \<and>
           isGenerate (ps st') = isGenerate cfg \<and> isStatus (ps st') = isStatus cfg"
proof -
  note t = ctor_tables [OF assms(1)]
  from assms(2) t(1) have l: "length (ps_counts (ps st)) = 7" by simp
  from count_spec [OF t(2) t(3) l assms(3)] obtain st' where
    a: "count st sieve sieveSize = Some st'"
    and b: "st' = st\<lparr>ps := (ps st)\<lparr>ps_counts := ps_counts (ps st')\<rparr>\<rparr>"
    by blast
  from b t(1) have p: "ps st' = cfg\<lparr>ps_counts := ps_counts (ps st')\<rparr>"
    by (metis PrimeNumberFinder.select_convs(5) PrimeNumberFinder.surjective
        PrimeNumberFinder.update_convs(5))
  have "ps_flags (ps st') = ps_flags cfg" by (subst p) simp
  moreover have "isGenerate (ps st') = isGenerate cfg" by (subst p) (simp add: isGenerate_def)
  moreover have "isStatus (ps st') = isStatus cfg" by (subst p) (simp add: isStatus_def)
  ultimately show ?thesis using a by blast
qed

lemma generate_no_status:
  assumes "unat sieveSize \<le> length sieve"
  shows "\<exists>out. generate st w sieve sieveSize = Some out \<and> \<not> list_ex is_status out"
proof -
  from generate_spec [OF assms, of st w] obtain out where
    g: "generate st w sieve sieveSize = Some out"
    and o: "if isFlag2 (ps st) PRINT_TWINS PRINT_SEPTUPLETS
      then (\<exists>k. 1 \<le> k \<and> k \<le> 6 \<and> out = tuplet_records k w sieve (unat sieveSize))
      else out = LockAcquire #
                 prime_deliveries (ps st) (primes_of w sieve (unat sieveSize)) @ [LockRelease]"
    by blast
  have "\<not> list_ex is_status out"
  proof (cases "isFlag2 (ps st) PRINT_TWINS PRINT_SEPTUPLETS")
    case True
    with o obtain k where "out = tuplet_records k w sieve (unat sieveSize)" by auto
    then show ?thesis using tuplet_records_are_deliveries by (auto simp: list_ex_iff)
  next
    case False
    with o show ?thesis using prime_deliveries_are_deliveries by (auto simp: list_ex_iff)
  qed
  with g show ?thesis by blast
qed

lemma replicate_7: "replicate 7 x = [x, x, x, x, x, x, x]"
  by (simp add: numeral_eq_Suc)

lemma count_sieve2:
  "count (finder {COUNT_PRIMES}) sieve2 2 =
     Some ((finder {COUNT_PRIMES})
             \<lparr>ps := (ps (finder {COUNT_PRIMES}))\<lparr>ps_counts := [10, 0, 0, 0, 0, 0, 0]\<rparr>\<rparr>)"
proof -
  have p: "primeCount_of sieve2 2 = Some 10"
    using primeCount_of_ref [OF sieve2_size] unfolding sieve2_bits by simp
  show ?thesis
    by (simp add: count_def p finder_def isFlag_def add_count_def at_def isCount_def
        all_flags_def upt_conv_Cons replicate_7)
qed

text \<open>
  C6, as it is stated, fails for a run that asks for no status: a processor that only
  counts primes processes the segment \<open>sieve2\<close>, adds its ten primes, and does not call
  the progress hook.
\<close>

theorem segmentProcessed_status_counterexample:
  "PrimeNumberFinder_ctor (ps (finder {COUNT_PRIMES})) = Some (finder {COUNT_PRIMES}) \<and>
   segmentProcessed 30 (finder {COUNT_PRIMES}) wheel30 sieve2 2 =
     Some ((finder {COUNT_PRIMES})
             \<lparr>ps := (ps (finder {COUNT_PRIMES}))\<lparr>ps_counts := [10, 0, 0, 0, 0, 0, 0]\<rparr>\<rparr>, [])"
proof -
  have c: "PrimeNumberFinder_ctor (ps (finder {COUNT_PRIMES})) = Some (finder {COUNT_PRIMES})"
    by (rule ctor_finder) (simp add: finder_def isFlag2_def flags_between_def all_flags_def)
  have 1: "isCount0 (ps (finder {COUNT_PRIMES}))"
    by (simp add: isCount0_def isFlag2_def flags_between_def all_flags_def finder_def)
  have 2: "\<not> isGenerate (ps (finder {COUNT_PRIMES}))"
    by (simp add: isGenerate_def isFlag2_def flags_between_def all_flags_def finder_def)
  have 3: "\<not> isStatus (ps (finder {COUNT_PRIMES}))"
    by (simp add: isStatus_def isFlag2_def flags_between_def all_flags_def finder_def)
  have "segmentProcessed 30 (finder {COUNT_PRIMES}) wheel30 sieve2 2 =
     Some ((finder {COUNT_PRIMES})
             \<lparr>ps := (ps (finder {COUNT_PRIMES}))\<lparr>ps_counts := [10, 0, 0, 0, 0, 0, 0]\<rparr>\<rparr>, [])"
    using 1 2 3 by (simp add: segmentProcessed_def count_sieve2 isGenerate_def isStatus_def)
  with c show ?thesis by simp
qed

text \<open>
  C6, amended: for every segment and size, \<open>segmentProcessed\<close> calls \<open>count\<close> exactly
  when a count is requested and then \<open>generate\<close> exactly when generation is
  requested; after that, when the status is requested, it calls the progress hook
  once, with the product of the size and \<open>NUMBERS_PER_BYTE\<close> in \<open>uint_t\<close> arithmetic,
  and when the status is not requested it does not call the hook.
\<close>

theorem segmentProcessed_fans_out:
  assumes "PrimeNumberFinder_ctor cfg = Some st" and "length (ps_counts cfg) = 7"
    and "unat sieveSize \<le> length sieve"
  shows "\<exists>st1 out. segmentProcessed NUMBERS_PER_BYTE st w sieve sieveSize =
           Some (st1, out @ (if isStatus cfg
                             then [UpdateStatus (sieveSize * NUMBERS_PER_BYTE)] else [])) \<and>
         (if isCount0 cfg then count st sieve sieveSize = Some st1 else st1 = st) \<and>
         (if isGenerate cfg then generate st1 w sieve sieveSize = Some out else out = []) \<and>
         \<not> list_ex is_status out"
proof -
  note t = ctor_tables [OF assms(1)]
  obtain st1 where c: "if isCount0 cfg then count st sieve sieveSize = Some st1 else st1 = st"
    and g1: "isGenerate (ps st1) = isGenerate cfg" and s1: "isStatus (ps st1) = isStatus cfg"
  proof (cases "isCount0 cfg")
    case True
    from count_total [OF assms] obtain st' where
      "count st sieve sieveSize = Some st'" "isGenerate (ps st') = isGenerate cfg"
      "isStatus (ps st') = isStatus cfg"
      by blast
    with True that show ?thesis by simp
  next
    case False
    with that [of st] t(1) show ?thesis by simp
  qed
  obtain out where g: "if isGenerate cfg then generate st1 w sieve sieveSize = Some out else out = []"
    and n: "\<not> list_ex is_status out"
  proof (cases "isGenerate cfg")
    case True
    from generate_no_status [OF assms(3), of st1 w] obtain out' where
      "generate st1 w sieve sieveSize = Some out'" "\<not> list_ex is_status out'"
      by blast
    with True that show ?thesis by simp
  next
    case False
    with that [of "[]"] show ?thesis by simp
  qed
  have "segmentProcessed NUMBERS_PER_BYTE st w sieve sieveSize =
           Some (st1, out @ (if isStatus cfg
                             then [UpdateStatus (sieveSize * NUMBERS_PER_BYTE)] else []))"
    using c g g1 s1 t(1) by (auto simp: segmentProcessed_def split: if_splits)
  with c g n show ?thesis by blast
qed

theorem segmentProcessed_fans_out_witness:
  "\<exists>st st1 out. PrimeNumberFinder_ctor (cfg_mixed\<lparr>ps_flags := {COUNT_TWINS, PRINT_TWINS, PRINT_STATUS}\<rparr>) = Some st \<and>
     segmentProcessed 30 st wheel30 sieve2 2 = Some (st1, out @ [UpdateStatus 60]) \<and>
     count st sieve2 2 = Some st1 \<and> generate st1 wheel30 sieve2 2 = Some out \<and>
     \<not> list_ex is_status out"
proof -
  let ?cfg = "cfg_mixed\<lparr>ps_flags := {COUNT_TWINS, PRINT_TWINS, PRINT_STATUS}\<rparr>"
  from ctor_spec [of ?cfg] obtain st where c: "PrimeNumberFinder_ctor ?cfg = Some st"
    by blast
  have l: "length (ps_counts ?cfg) = 7" by (simp add: cfg_mixed_def)
  have 1: "isCount0 ?cfg"
    by (simp add: isCount0_def isFlag2_def flags_between_def all_flags_def)
  have 2: "isGenerate ?cfg"
    by (simp add: isGenerate_def isFlag2_def flags_between_def all_flags_def)
  have 3: "isStatus ?cfg"
    by (simp add: isStatus_def isFlag2_def flags_between_def all_flags_def)
  from segmentProcessed_fans_out [OF c l sieve2_size, of 30 wheel30] 1 2 3 c
  show ?thesis by auto
qed

section \<open>The start of the range\<close>











end
